theory Spec2Isabelle
  imports Main "HOL-Library.Sublist" "HOL-Library.AList"
begin

section \<open>Strings\<close>

text \<open>
  A Python \<^verbatim>\<open>str\<close> is modelled as a \<^typ>\<open>string\<close>: a list of code points below 256
  (Latin-1, of which ASCII is the lower half), so that \<^term>\<open>length\<close> is Python's
  \<^verbatim>\<open>len\<close>. The three character tables below are the Unicode ones restricted to that
  range.
\<close>

definition code :: "char \<Rightarrow> nat" where
  "code c = of_char c"

text \<open>\<^verbatim>\<open>str.isspace\<close> per code point: what \<^verbatim>\<open>str.strip()\<close> and \<^verbatim>\<open>str.split()\<close> remove.\<close>

definition is_space :: "char \<Rightarrow> bool" where
  "is_space c = (let n = code c in
     (9 \<le> n \<and> n \<le> 13) \<or> (28 \<le> n \<and> n \<le> 32) \<or> n = 133 \<or> n = 160)"

text \<open>The class \<^verbatim>\<open>\w\<close> of a \<^verbatim>\<open>str\<close> pattern: alphanumeric code points and the underscore.\<close>

definition is_word :: "char \<Rightarrow> bool" where
  "is_word c = (let n = code c in
     (48 \<le> n \<and> n \<le> 57) \<or> (65 \<le> n \<and> n \<le> 90) \<or> n = 95 \<or> (97 \<le> n \<and> n \<le> 122) \<or>
     n = 170 \<or> n = 178 \<or> n = 179 \<or> n = 181 \<or> n = 185 \<or> n = 186 \<or>
     (188 \<le> n \<and> n \<le> 190) \<or> (192 \<le> n \<and> n \<le> 214) \<or> (216 \<le> n \<and> n \<le> 246) \<or> 248 \<le> n)"

text \<open>\<^verbatim>\<open>str.lower\<close> per code point; it is also the case folding of \<^verbatim>\<open>re.IGNORECASE\<close>.\<close>

definition lower :: "char \<Rightarrow> char" where
  "lower c = (let n = code c in
     if (65 \<le> n \<and> n \<le> 90) \<or> (192 \<le> n \<and> n \<le> 214) \<or> (216 \<le> n \<and> n \<le> 222)
     then char_of (n + 32) else c)"

definition str_lower :: "string \<Rightarrow> string" where
  "str_lower s = map lower s"

text \<open>\<^verbatim>\<open>s.strip()\<close> and \<^verbatim>\<open>s.strip(chars)\<close>.\<close>

definition strip_with :: "(char \<Rightarrow> bool) \<Rightarrow> string \<Rightarrow> string" where
  "strip_with P s = rev (dropWhile P (rev (dropWhile P s)))"

definition str_strip :: "string \<Rightarrow> string" where
  "str_strip s = strip_with is_space s"

text \<open>\<^verbatim>\<open>s.split(sep)\<close> for a separator of one character: never the empty list.\<close>

fun str_split :: "char \<Rightarrow> string \<Rightarrow> string list" where
  "str_split c [] = [[]]"
| "str_split c (x # xs) =
     (if x = c then [] # str_split c xs
      else (case str_split c xs of [] \<Rightarrow> [[x]] | y # ys \<Rightarrow> (x # y) # ys))"

text \<open>\<^verbatim>\<open>sep.join(items)\<close>.\<close>

fun str_join :: "string \<Rightarrow> string list \<Rightarrow> string" where
  "str_join sep [] = []"
| "str_join sep [x] = x"
| "str_join sep (x # y # ys) = x @ sep @ str_join sep (y # ys)"

text \<open>\<^verbatim>\<open>w in s\<close> on strings is \<^term>\<open>sublist w s\<close>.\<close>

section \<open>The regular expressions of the \<^verbatim>\<open>re\<close> module that the program uses\<close>

text \<open>
  The patterns of the program are built from literal text, alternation \<^verbatim>\<open>|\<close>, the
  optional group \<^verbatim>\<open>(...)?\<close>, the greedy negated class \<^verbatim>\<open>[^c]*\<close> and the word boundary
  \<^verbatim>\<open>\b\<close>. A cursor is the text still to be read together with the character just before
  it, which \<^verbatim>\<open>\b\<close> looks at.
\<close>

datatype regex =
    Str string
  | Bnd
  | StarNot char
  | Opt regex
  | Seq regex regex
  | Alts "regex list"

type_synonym cursor = "char option \<times> string"

definition chr_eq :: "bool \<Rightarrow> char \<Rightarrow> char \<Rightarrow> bool" where
  "chr_eq ic c x = (if ic then lower x = lower c else x = c)"

fun lit_prefix :: "bool \<Rightarrow> string \<Rightarrow> cursor \<Rightarrow> cursor option" where
  "lit_prefix ic [] cur = Some cur"
| "lit_prefix ic (c # w) (p, []) = None"
| "lit_prefix ic (c # w) (p, x # t) =
     (if chr_eq ic c x then lit_prefix ic w (Some x, t) else None)"

text \<open>All the ways \<^verbatim>\<open>[^c]*\<close> can match at a cursor, the longest first (it is greedy).\<close>

fun not_run :: "bool \<Rightarrow> char \<Rightarrow> cursor \<Rightarrow> cursor list" where
  "not_run ic c (p, []) = [(p, [])]"
| "not_run ic c (p, x # t) =
     (if chr_eq ic c x then [] else not_run ic c (Some x, t)) @ [(p, x # t)]"

definition at_boundary :: "cursor \<Rightarrow> bool" where
  "at_boundary cur =
     ((case fst cur of None \<Rightarrow> False | Some a \<Rightarrow> is_word a) \<noteq>
      (case snd cur of [] \<Rightarrow> False | b # _ \<Rightarrow> is_word b))"

text \<open>
  The backtracking matcher as a list of successes: every cursor at which a match of the
  pattern starting at the given cursor can end, in the order in which the matcher tries
  them (alternatives left to right, an optional group first with the group and then
  without, a greedy repetition from the longest down). The match that \<^verbatim>\<open>re\<close> reports
  is the first one.
\<close>

fun results :: "bool \<Rightarrow> regex \<Rightarrow> cursor \<Rightarrow> cursor list" where
  "results ic (Str w) cur = (case lit_prefix ic w cur of None \<Rightarrow> [] | Some c \<Rightarrow> [c])"
| "results ic Bnd cur = (if at_boundary cur then [cur] else [])"
| "results ic (StarNot c) cur = not_run ic c cur"
| "results ic (Opt r) cur = results ic r cur @ [cur]"
| "results ic (Seq r1 r2) cur = concat (map (results ic r2) (results ic r1 cur))"
| "results ic (Alts rs) cur = concat (map (\<lambda>r. results ic r cur) rs)"

definition match_at :: "bool \<Rightarrow> regex \<Rightarrow> cursor \<Rightarrow> cursor option" where
  "match_at ic r cur = (case results ic r cur of [] \<Rightarrow> None | c # _ \<Rightarrow> Some c)"

text \<open>\<^verbatim>\<open>re.search\<close>: the first position, from the left, at which the pattern matches.\<close>

fun scan :: "bool \<Rightarrow> regex \<Rightarrow> cursor \<Rightarrow> cursor option" where
  "scan ic r (p, []) = match_at ic r (p, [])"
| "scan ic r (p, x # t) =
     (case match_at ic r (p, x # t) of
        Some c \<Rightarrow> Some c
      | None \<Rightarrow> scan ic r (Some x, t))"

definition re_search :: "bool \<Rightarrow> regex \<Rightarrow> string \<Rightarrow> bool" where
  "re_search ic r s = (scan ic r (None, s) \<noteq> None)"

text \<open>
  \<^verbatim>\<open>re.sub(pattern, '', text)\<close>: the text with every match removed, matches found from the
  left and not overlapping. A match that consumes nothing removes nothing and the scan
  moves on by one character; none of the patterns of the program has such a match.
\<close>

function sub_from :: "bool \<Rightarrow> regex \<Rightarrow> cursor \<Rightarrow> string" where
  "sub_from ic r (p, []) = []"
| "sub_from ic r (p, x # t) =
     (case match_at ic r (p, x # t) of
        None \<Rightarrow> x # sub_from ic r (Some x, t)
      | Some c \<Rightarrow>
          (if length (snd c) < Suc (length t) then sub_from ic r c
           else x # sub_from ic r (Some x, t)))"
  by pat_completeness auto
termination
  by (relation "measure (\<lambda>(ic, r, cur). length (snd cur))") auto

definition re_sub :: "bool \<Rightarrow> regex \<Rightarrow> string \<Rightarrow> string" where
  "re_sub ic r s = sub_from ic r (None, s)"

section \<open>Text Normalizer: \<^verbatim>\<open>clean_usecase\<close>\<close>

text \<open>\<^verbatim>\<open>used (in|for|to)|treatment of|indicated for|helps with|treats\<close>\<close>

definition connector_re :: regex where
  "connector_re = Alts
     [Seq (Str ''used '') (Alts [Str ''in'', Str ''for'', Str ''to'']),
      Str ''treatment of'', Str ''indicated for'', Str ''helps with'', Str ''treats'']"

text \<open>\<^verbatim>\<open>(such as|including|like|e\.g\.|i\.e\.)\<close>\<close>

definition marker_re :: regex where
  "marker_re = Alts [Str ''such as'', Str ''including'', Str ''like'', Str ''e.g.'', Str ''i.e.'']"

text \<open>\<^verbatim>\<open>\([^)]*\)\<close>\<close>

definition paren_re :: regex where
  "paren_re = Seq (Str ''('') (Seq (StarNot (CHR '')'')) (Str '')''))"

text \<open>\<^verbatim>\<open>(it|this)( is| can| may| will)?( be| also)? [^,]*,?\<close>\<close>

definition clause_re :: regex where
  "clause_re =
     Seq (Alts [Str ''it'', Str ''this''])
    (Seq (Opt (Alts [Str '' is'', Str '' can'', Str '' may'', Str '' will'']))
    (Seq (Opt (Alts [Str '' be'', Str '' also'']))
    (Seq (Str '' '')
    (Seq (StarNot (CHR '',''))
         (Opt (Str '',''))))))"


text \<open>Lines 34 to 40: split at the commas, strip, drop the empty and the long items, join.\<close>

definition join_items :: "string \<Rightarrow> string" where
  "join_items text4 =
     (let items = map str_strip (str_split (CHR '','') text4);
          items = filter (\<lambda>item. length item < 50 \<and> length item > 0) items
      in str_join '', '' items)"

definition clean_usecase :: "string \<Rightarrow> string" where
  "clean_usecase text0 =
     (let text1 = re_sub True connector_re text0;
          text2 = re_sub True marker_re text1;
          text3 = re_sub False paren_re text2;
          text4 = re_sub True clause_re text3
      in join_items text4)"

section \<open>Format Validator: \<^verbatim>\<open>validate_usecase\<close>\<close>

definition modal_verbs :: "string list" where
  "modal_verbs = [''is'', ''are'', ''was'', ''were'', ''will'', ''should'', ''could'', ''would'',
     ''can'', ''may'', ''might'', ''must'', ''has'', ''have'', ''had'', ''does'', ''do'', ''did'']"

definition action_verbs :: "string list" where
  "action_verbs = [''treat'', ''use'', ''help'', ''provide'', ''reduce'', ''prevent'', ''manage'',
     ''relieve'', ''alleviate'']"

text \<open>\<^verbatim>\<open>\b(w1|w2|...)\b\<close>\<close>

definition word_re :: "string list \<Rightarrow> regex" where
  "word_re ws = Seq Bnd (Seq (Alts (map Str ws)) Bnd)"

definition sentence_patterns :: "regex list" where
  "sentence_patterns = [word_re modal_verbs, word_re action_verbs]"

definition validate_usecase :: "string \<Rightarrow> bool" where
  "validate_usecase usecase =
     (if length usecase > 150 then False
      else \<not> list_ex (\<lambda>pattern. re_search True pattern usecase) sentence_patterns)"

section \<open>Lookup Fallback: \<^verbatim>\<open>get_usecase_from_lookup\<close>\<close>

text \<open>The dictionary in its insertion order, which is the order a \<^verbatim>\<open>for\<close> loop visits.\<close>

definition COMMON_MEDICINE_USECASES :: "(string \<times> string) list" where
  "COMMON_MEDICINE_USECASES =
    [(''Augmentin'', ''bacterial infections, sinusitis, pneumonia, ear infections''),
     (''Azithromycin'', ''bacterial infections, respiratory infections, skin infections''),
     (''Amoxycillin'', ''bacterial infections, bronchitis, pneumonia, tonsillitis''),
     (''Paracetamol'', ''fever, pain, headache''),
     (''Ibuprofen'', ''pain, inflammation, fever, arthritis''),
     (''Montelukast'', ''asthma, allergic rhinitis''),
     (''Fexofenadine'', ''allergies, hay fever, urticaria''),
     (''Cetirizine'', ''allergies, hay fever, urticaria''),
     (''Hydroxyzine'', ''anxiety, itching, allergies''),
     (''Levosalbutamol'', ''asthma, bronchospasm, COPD''),
     (''Ambroxol'', ''cough, bronchitis, respiratory congestion''),
     (''Pheniramine'', ''allergies, hay fever, itching''),
     (''Clavulanic Acid'', ''bacterial infections'')]"

text \<open>\<^verbatim>\<open>s.split()\<close>: the maximal runs of characters that are not whitespace.\<close>

function str_split_ws :: "string \<Rightarrow> string list" where
  "str_split_ws s =
     (case dropWhile is_space s of
        [] \<Rightarrow> []
      | x # t \<Rightarrow> (x # takeWhile (\<lambda>c. \<not> is_space c) t)
                 # str_split_ws (dropWhile (\<lambda>c. \<not> is_space c) t))"
  by pat_completeness auto
termination
proof (relation "measure length", goal_cases)
  case 1
  show ?case by simp
next
  case (2 s x t)
  have "length (dropWhile (\<lambda>c. \<not> is_space c) t) \<le> length t"
    by (rule length_dropWhile_le)
  moreover have "length (dropWhile is_space s) \<le> length s"
    by (rule length_dropWhile_le)
  ultimately show ?case using 2 by simp
qed

declare str_split_ws.simps [simp del]

text \<open>The loop over the keys: \<^verbatim>\<open>if key.lower() in medicine_name.lower(): return ...\<close>\<close>

fun lookup_name :: "(string \<times> string) list \<Rightarrow> string \<Rightarrow> string option" where
  "lookup_name [] medicine_name = None"
| "lookup_name ((key, v) # kvs) medicine_name =
     (if sublist (str_lower key) (str_lower medicine_name) then Some v
      else lookup_name kvs medicine_name)"

text \<open>
  The loop over the compositions. A composition is \<^term>\<open>None\<close> where the cell is missing
  (\<^verbatim>\<open>pd.notna(comp)\<close> is false). \<^verbatim>\<open>active.lower() in COMMON_MEDICINE_USECASES\<close> asks
  whether the lowered word is a key of the dictionary, as it is written there.
\<close>

fun lookup_compositions :: "(string \<times> string) list \<Rightarrow> string option list \<Rightarrow> string option" where
  "lookup_compositions table [] = None"
| "lookup_compositions table (None # comps) = lookup_compositions table comps"
| "lookup_compositions table (Some cmp # comps) =
     (if cmp = [] then lookup_compositions table comps
      else (let active = (case str_split_ws cmp of [] \<Rightarrow> [] | w # _ \<Rightarrow> w) in
            case map_of table (str_lower active) of
              Some v \<Rightarrow> Some v
            | None \<Rightarrow> lookup_compositions table comps))"

definition get_usecase_from_lookup :: "string \<Rightarrow> string option list \<Rightarrow> string option" where
  "get_usecase_from_lookup medicine_name compositions =
     (case lookup_name COMMON_MEDICINE_USECASES medicine_name of
        Some v \<Rightarrow> Some v
      | None \<Rightarrow> lookup_compositions COMMON_MEDICINE_USECASES compositions)"

section \<open>Enrichment Query: \<^verbatim>\<open>get_medicine_usecase\<close>\<close>

text \<open>
  One row of the data frame. \<^term>\<open>None\<close> is a missing cell (NaN). The external model is
  a parameter: what the \<open>n\<close>-th call of the run answers for a row, which is the text of
  the response or an exception, kept as its message \<^verbatim>\<open>str(e)\<close>.
\<close>

record medicine =
  name :: string
  short_composition1 :: "string option"
  short_composition2 :: "string option"
  med_type :: string
  Usecase :: "string option"

datatype reply = Text string | Raises string

type_synonym api = "nat \<Rightarrow> medicine \<Rightarrow> reply"

definition is_rate_limit_error :: "string \<Rightarrow> bool" where
  "is_rate_limit_error exception =
     (sublist ''429'' exception \<or> sublist ''quota'' (str_lower exception) \<or>
      sublist ''resource exhausted'' (str_lower exception))"

definition is_quote :: "char \<Rightarrow> bool" where
  "is_quote c = (c = CHR 0x22 \<or> c = CHR 0x27)"

text \<open>
  The body of the function, for one call of the model: \<^term>\<open>Inl\<close> is the exception that
  the handler raises again, \<^term>\<open>Inr\<close> the value returned.
\<close>

definition query_once :: "reply \<Rightarrow> string + string" where
  "query_once r =
     (case r of
        Text t \<Rightarrow>
          (let usecase = strip_with is_quote (str_strip t);
               usecase = clean_usecase usecase
           in if usecase = [] then Inr ''unknown'' else Inr usecase)
      | Raises e \<Rightarrow> (if is_rate_limit_error e then Inl e else Inr ''unknown''))"

text \<open>
  The decorator \<^verbatim>\<open>backoff.on_exception(backoff.expo, Exception, max_tries, giveup)\<close>: call the
  target; on an exception give up (raise it) when \<^verbatim>\<open>giveup\<close> says so or when this was try
  number \<^verbatim>\<open>max_tries\<close>, else wait and try again. The result carries the number of calls
  made so far in the run and the values of \<^verbatim>\<open>backoff.expo\<close> (1, 2, 4, ... seconds) from
  which the waits before the retries were drawn.
\<close>

function on_exception ::
  "nat \<Rightarrow> (string \<Rightarrow> bool) \<Rightarrow> (nat \<Rightarrow> string + 'a) \<Rightarrow> nat \<Rightarrow> nat \<Rightarrow> (string + 'a) \<times> nat \<times> nat list"
where
  "on_exception max_tries giveup target tries calls =
     (case target calls of
        Inr v \<Rightarrow> (Inr v, Suc calls, [])
      | Inl e \<Rightarrow>
          (if giveup e \<or> max_tries \<le> Suc tries then (Inl e, Suc calls, [])
           else (case on_exception max_tries giveup target (Suc tries) (Suc calls) of
                   (res, calls', waits) \<Rightarrow> (res, calls', 2 ^ tries # waits))))"
  by pat_completeness auto
termination
  by (relation "measure (\<lambda>(max_tries, giveup, target, tries, calls). max_tries - tries)") auto

declare on_exception.simps [simp del]

definition get_medicine_usecase ::
  "api \<Rightarrow> medicine \<Rightarrow> nat \<Rightarrow> (string + string) \<times> nat \<times> nat list" where
  "get_medicine_usecase model row calls =
     on_exception 3 (\<lambda>e. \<not> is_rate_limit_error e) (\<lambda>n. query_once (model n row)) 0 calls"

section \<open>Batch Orchestrator: \<^verbatim>\<open>process_dataset\<close>\<close>

text \<open>
  The state of a run: the data frame, the dictionary of results not yet applied to it (in
  insertion order), the number of calls made to the model, the row labels for which
  \<^verbatim>\<open>get_medicine_usecase\<close> was called, and every data frame written to the output file, in
  order. The progress log, the console and the randomized sleeps are left out.
\<close>

record run =
  df :: "medicine list"
  results_dict :: "(nat \<times> string) list"
  calls :: nat
  queried :: "nat list"
  written :: "medicine list list"

datatype error = ZeroDivisionError

text \<open>\<^verbatim>\<open>isna() | == '' | == 'unknown'\<close>\<close>

definition unresolved :: "medicine \<Rightarrow> bool" where
  "unresolved row = (case Usecase row of None \<Rightarrow> True | Some u \<Rightarrow> u = [] \<or> u = ''unknown'')"

text \<open>\<^verbatim>\<open>df.at[k, 'Usecase'] = v\<close>, for a label \<open>k\<close> of the frame (the only way it is called).\<close>

definition set_usecase :: "medicine list \<Rightarrow> nat \<Rightarrow> string \<Rightarrow> medicine list" where
  "set_usecase d k v = d[k := (d ! k)\<lparr>Usecase := Some v\<rparr>]"

text \<open>\<^verbatim>\<open>for k, v in results_dict.items(): df.at[k, 'Usecase'] = v\<close>\<close>

definition apply_results :: "run \<Rightarrow> run" where
  "apply_results st = st\<lparr>df := fold (\<lambda>(k, v) d. set_usecase d k v) (results_dict st) (df st)\<rparr>"

definition to_csv :: "run \<Rightarrow> run" where
  "to_csv st = st\<lparr>written := written st @ [df st]\<rparr>"

text \<open>The validation of a returned usecase, lines 165 to 169.\<close>

definition checked :: "string \<Rightarrow> string" where
  "checked usecase =
     (if \<not> validate_usecase usecase then
        (let usecase = clean_usecase usecase in
         if \<not> validate_usecase usecase then ''unknown'' else usecase)
      else usecase)"

text \<open>The body of the loop over the rows of a batch, for the row with label \<open>idx\<close>.\<close>

definition process_row :: "api \<Rightarrow> run \<Rightarrow> nat \<Rightarrow> run" where
  "process_row model st idx =
     (let row = df st ! idx;
          (res, calls', waits) = get_medicine_usecase model row (calls st);
          st = st\<lparr>calls := calls', queried := queried st @ [idx]\<rparr>;
          st = (case res of
                  Inr usecase \<Rightarrow>
                    st\<lparr>results_dict := AList.update idx (checked usecase) (results_dict st)\<rparr>
                | Inl e \<Rightarrow>
                    (if is_rate_limit_error e
                     then (to_csv (apply_results st))\<lparr>results_dict := []\<rparr>
                     else st))
      in if length (results_dict st) \<ge> 20
         then (to_csv (apply_results st))\<lparr>results_dict := []\<rparr>
         else st)"

text \<open>
  The rows of the batch \<^verbatim>\<open>df.iloc[start_idx:end_idx]\<close> that are unresolved, lines 143 and
  144, and the body of the loop over the batches, for batch number \<open>i\<close>.
\<close>

definition rows_to_process :: "medicine list \<Rightarrow> nat \<Rightarrow> nat \<Rightarrow> nat list" where
  "rows_to_process d start_idx end_idx =
     filter (\<lambda>idx. unresolved (d ! idx)) [start_idx ..< end_idx]"

definition process_batch :: "api \<Rightarrow> nat \<Rightarrow> nat \<Rightarrow> run \<Rightarrow> run" where
  "process_batch model batch_size i st =
     (let total_rows = length (df st);
          start_idx = i * batch_size;
          end_idx = min (start_idx + batch_size) total_rows;
          todo = rows_to_process (df st) start_idx end_idx
      in if todo = [] then st
         else (let st = fold (\<lambda>idx st. process_row model st idx) todo st;
                   st = (if results_dict st \<noteq> []
                         then (apply_results st)\<lparr>results_dict := []\<rparr> else st)
               in to_csv st))"

text \<open>
  \<^verbatim>\<open>process_dataset\<close> on the frame that \<^verbatim>\<open>read_csv\<close> returned, with the \<^verbatim>\<open>Usecase\<close> column
  added where it was absent. The batch size is a natural number; 0 raises at line 137.
\<close>

definition process_dataset :: "api \<Rightarrow> medicine list \<Rightarrow> nat \<Rightarrow> nat \<Rightarrow> error + run" where
  "process_dataset model input calls0 batch_size =
     (if batch_size = 0 then Inl ZeroDivisionError
      else (let total_rows = length input;
                batch_count = (total_rows + batch_size - 1) div batch_size;
                st = \<lparr>df = input, results_dict = [], calls = calls0, queried = [], written = []\<rparr>
            in Inr (fold (process_batch model batch_size) [0 ..< batch_count] st)))"

section \<open>The two passes: \<^verbatim>\<open>process_dataset_with_fallback\<close>\<close>

text \<open>
  The body of the first loop, lines 284 to 287: an unresolved row takes the value of the
  lookup table when there is one (\<^verbatim>\<open>if usecase:\<close> also asks that it is not empty).
\<close>

definition lookup_row :: "medicine \<Rightarrow> medicine" where
  "lookup_row row =
     (if unresolved row then
        (case get_usecase_from_lookup (name row) [short_composition1 row, short_composition2 row] of
           None \<Rightarrow> row
         | Some usecase \<Rightarrow> (if usecase = [] then row else row\<lparr>Usecase := Some usecase\<rparr>))
      else row)"

text \<open>
  The frame after the first pass is written to the output file, and the second pass reads
  that file again; the frame read back is taken to be the frame written.
\<close>

definition process_dataset_with_fallback ::
  "api \<Rightarrow> medicine list \<Rightarrow> nat \<Rightarrow> nat \<Rightarrow> error + run" where
  "process_dataset_with_fallback model input calls0 batch_size =
     (let d = map lookup_row input in
      case process_dataset model d calls0 batch_size of
        Inl e \<Rightarrow> Inl e
      | Inr st \<Rightarrow> Inr (st\<lparr>written := d # written st\<rparr>))"

section \<open>Vocabulary of the statements\<close>

text \<open>A value that may be stored: one the Validator accepts, or the sentinel.\<close>

definition accepted :: "string \<Rightarrow> bool" where
  "accepted v = (validate_usecase v \<or> v = ''unknown'')"

text \<open>
  A row of the frame during a run, against the row \<open>r0\<close> that was read: it is that row,
  or that row was unresolved and now carries an accepted value.
\<close>

definition row_ok :: "medicine \<Rightarrow> medicine \<Rightarrow> bool" where
  "row_ok r0 r =
     (r = r0 \<or> (unresolved r0 \<and>
        (case Usecase r of None \<Rightarrow> False | Some v \<Rightarrow> r = r0\<lparr>Usecase := Some v\<rparr> \<and> accepted v)))"

definition run_inv :: "medicine list \<Rightarrow> run \<Rightarrow> bool" where
  "run_inv d st =
     (list_all2 row_ok d (df st) \<and>
      list_all (\<lambda>(k, v). k < length d \<and> unresolved (d ! k) \<and> accepted v) (results_dict st) \<and>
      list_all (\<lambda>i. i < length d \<and> unresolved (d ! i)) (queried st) \<and>
      list_all (\<lambda>w. list_all2 row_ok d w) (written st))"

text \<open>
  Nothing is pending at the end of a batch: the dictionary of results is empty, and the
  last frame written, when there is one, is the frame in memory.
\<close>

definition flushed :: "run \<Rightarrow> bool" where
  "flushed st = (results_dict st = [] \<and> (written st = [] \<or> last (written st) = df st))"

text \<open>Rows and models for the examples.\<close>

definition dolo :: medicine where
  "dolo = \<lparr>name = ''Dolo 650 Tablet'', short_composition1 = Some ''Paracetamol (650mg)'',
     short_composition2 = None, med_type = ''allopathy'', Usecase = None\<rparr>"

definition azee :: medicine where
  "azee = \<lparr>name = ''Zady 500 Tablet'', short_composition1 = Some ''Azithromycin (500mg)'',
     short_composition2 = None, med_type = ''allopathy'', Usecase = Some ''bacterial infections''\<rparr>"

text \<open>A model that is rate limited for its first three calls and answers afterwards.\<close>

definition limited_model :: api where
  "limited_model n row =
     (if n < 3 then Raises ''429 Resource has been exhausted'' else Text ''fever, headache'')"

text \<open>A model whose answer is cleaned to a sentence that the second cleaning empties.\<close>

definition prose_model :: api where
  "prose_model n row = Text ''iit is b,t may c''"

text \<open>A model that fails with an error that is not a rate limit.\<close>

definition broken_model :: api where
  "broken_model n row = Raises ''500 Internal error''"

section \<open>Auxiliary facts\<close>

subsection \<open>Characters\<close>

lemma code_char_of: "n < 256 \<Longrightarrow> code (char_of n) = n"
  by (simp add: code_def)

lemma code_lower:
  "code (lower c) = (if (65 \<le> code c \<and> code c \<le> 90) \<or> (192 \<le> code c \<and> code c \<le> 214) \<or> (216 \<le> code c \<and> code c \<le> 222)
     then code c + 32 else code c)"
  by (simp add: lower_def Let_def code_char_of)

lemma lower_not_upper: "\<not> (65 \<le> code (lower c) \<and> code (lower c) \<le> 90)"
  unfolding code_lower by (simp; arith)

subsection \<open>The lookup by composition never succeeds\<close>

lemma lowered_not_key: "map_of COMMON_MEDICINE_USECASES (str_lower w) = None"
proof (cases w)
  case Nil
  then show ?thesis by (simp add: COMMON_MEDICINE_USECASES_def str_lower_def)
next
  case (Cons x xs)
  have "lower x \<noteq> c" if "65 \<le> code c \<and> code c \<le> 90" for c
    using that lower_not_upper [of x] by auto
  then have "lower x \<noteq> CHR ''A''" "lower x \<noteq> CHR ''P''" "lower x \<noteq> CHR ''I''" "lower x \<noteq> CHR ''M''"
    "lower x \<noteq> CHR ''F''" "lower x \<noteq> CHR ''C''" "lower x \<noteq> CHR ''H''" "lower x \<noteq> CHR ''L''"
    by (simp_all add: code_def)
  then show ?thesis using Cons
    by (simp add: COMMON_MEDICINE_USECASES_def str_lower_def)
qed

lemma lookup_compositions_dead:
  "lookup_compositions COMMON_MEDICINE_USECASES comps = None"
proof (induction comps)
  case Nil
  show ?case by simp
next
  case (Cons a comps)
  then show ?case by (cases a) (simp_all add: lowered_not_key Let_def)
qed

lemma get_usecase_from_lookup_ignores_compositions:
  "get_usecase_from_lookup medicine_name compositions = lookup_name COMMON_MEDICINE_USECASES medicine_name"
  by (simp add: get_usecase_from_lookup_def lookup_compositions_dead split: option.splits)

subsection \<open>The three tries of the query\<close>

lemma query_once_Inl: "query_once r = Inl e \<Longrightarrow> r = Raises e \<and> is_rate_limit_error e"
  by (auto simp: query_once_def Let_def split: reply.splits if_splits)

lemma get_medicine_usecase_unfold:
  "get_medicine_usecase model row n =
     (case query_once (model n row) of
        Inr v \<Rightarrow> (Inr v, Suc n, [])
      | Inl e1 \<Rightarrow>
         (case query_once (model (Suc n) row) of
            Inr v \<Rightarrow> (Inr v, Suc (Suc n), [1])
          | Inl e2 \<Rightarrow>
             (case query_once (model (Suc (Suc n)) row) of
                Inr v \<Rightarrow> (Inr v, Suc (Suc (Suc n)), [1, 2])
              | Inl e3 \<Rightarrow> (Inl e3, Suc (Suc (Suc n)), [1, 2]))))"
  unfolding get_medicine_usecase_def
  apply (subst on_exception.simps)
  apply (subst on_exception.simps)
  apply (subst on_exception.simps)
  apply (auto split: sum.splits dest: query_once_Inl)
  done

lemma get_medicine_usecase_Inl:
  assumes "get_medicine_usecase model row n = (Inl e, c, w)"
  shows "is_rate_limit_error e \<and> c = n + 3 \<and> w = [1, 2] \<and> model (n + 2) row = Raises e"
  using assms unfolding get_medicine_usecase_unfold
  by (auto split: sum.splits dest: query_once_Inl)

subsection \<open>The invariant of a run\<close>

lemma checked_accepted: "accepted (checked u)"
  by (simp add: checked_def accepted_def Let_def)

lemma row_ok_refl: "row_ok r r"
  by (simp add: row_ok_def)

lemma row_ok_set:
  assumes "row_ok r0 r" "unresolved r0" "accepted v"
  shows "row_ok r0 (r\<lparr>Usecase := Some v\<rparr>)"
  using assms by (auto simp: row_ok_def split: option.splits)

lemma set_usecase_ok:
  assumes "list_all2 row_ok d f" "k < length d" "unresolved (d ! k)" "accepted v"
  shows "list_all2 row_ok d (set_usecase f k v)"
proof -
  have "row_ok (d ! k) (f ! k)" using assms(1,2) by (simp add: list_all2_conv_all_nth)
  then have "row_ok (d ! k) ((f ! k)\<lparr>Usecase := Some v\<rparr>)"
    using assms(3,4) by (rule row_ok_set)
  then show ?thesis
    using assms(1,2) unfolding set_usecase_def
    by (auto simp: list_all2_conv_all_nth nth_list_update)
qed

lemma fold_set_usecase_ok:
  assumes "list_all2 row_ok d f"
    "list_all (\<lambda>(k, v). k < length d \<and> unresolved (d ! k) \<and> accepted v) res"
  shows "list_all2 row_ok d (fold (\<lambda>(k, v) d. set_usecase d k v) res f)"
  using assms
proof (induction res arbitrary: f)
  case Nil
  then show ?case by simp
next
  case (Cons kv res)
  obtain k v where kv: "kv = (k, v)" by (cases kv)
  have "list_all2 row_ok d (set_usecase f k v)"
    using Cons.prems kv by (auto intro: set_usecase_ok)
  then show ?case using Cons.IH Cons.prems kv by simp
qed

lemma apply_results_inv: "run_inv d st \<Longrightarrow> run_inv d (apply_results st)"
  by (simp add: run_inv_def apply_results_def fold_set_usecase_ok)

lemma to_csv_inv: "run_inv d st \<Longrightarrow> run_inv d (to_csv st)"
  by (simp add: run_inv_def to_csv_def)

lemma clear_inv: "run_inv d st \<Longrightarrow> run_inv d (st\<lparr>results_dict := []\<rparr>)"
  by (simp add: run_inv_def)

lemma set_update_subset: "set (AList.update k v al) \<subseteq> insert (k, v) (set al)"
  by (induction al) auto

lemma store_inv:
  assumes "run_inv d st" "k < length d" "unresolved (d ! k)" "accepted v"
  shows "run_inv d (st\<lparr>results_dict := AList.update k v (results_dict st)\<rparr>)"
  using assms set_update_subset [of k v "results_dict st"]
  by (auto simp: run_inv_def list_all_iff)

lemma queried_inv:
  assumes "run_inv d st" "k < length d" "unresolved (d ! k)"
  shows "run_inv d (st\<lparr>calls := c, queried := queried st @ [k]\<rparr>)"
  using assms by (simp add: run_inv_def)

lemma process_row_inv:
  assumes "run_inv d st" "idx < length d" "unresolved (d ! idx)"
  shows "run_inv d (process_row model st idx)"
proof -
  obtain res c w where g: "get_medicine_usecase model (df st ! idx) (calls st) = (res, c, w)"
    by (cases "get_medicine_usecase model (df st ! idx) (calls st)")
  let ?s1 = "st\<lparr>calls := c, queried := queried st @ [idx]\<rparr>"
  have 1: "run_inv d ?s1" using assms by (rule queried_inv)
  let ?s2 = "(case res of
                  Inr usecase \<Rightarrow>
                    ?s1\<lparr>results_dict := AList.update idx (checked usecase) (results_dict ?s1)\<rparr>
                | Inl e \<Rightarrow>
                    (if is_rate_limit_error e
                     then (to_csv (apply_results ?s1))\<lparr>results_dict := []\<rparr>
                     else ?s1))"
  have 2: "run_inv d ?s2"
  proof (cases res)
    case (Inl e)
    then show ?thesis using 1 by (simp add: clear_inv to_csv_inv apply_results_inv)
  next
    case (Inr u)
    then show ?thesis using store_inv [OF 1 assms(2,3) checked_accepted] by simp
  qed
  have "process_row model st idx =
      (if length (results_dict ?s2) \<ge> 20 then (to_csv (apply_results ?s2))\<lparr>results_dict := []\<rparr> else ?s2)"
    by (simp add: process_row_def g Let_def)
  then show ?thesis using 2 by (simp add: clear_inv to_csv_inv apply_results_inv)
qed

lemma fold_process_row_inv:
  assumes "run_inv d st" "list_all (\<lambda>idx. idx < length d \<and> unresolved (d ! idx)) xs"
  shows "run_inv d (fold (\<lambda>idx st. process_row model st idx) xs st)"
  using assms by (induction xs arbitrary: st) (simp_all add: process_row_inv)

lemma row_ok_unresolved: "row_ok r0 r \<Longrightarrow> unresolved r \<Longrightarrow> unresolved r0"
  by (auto simp: row_ok_def)

lemma process_batch_inv:
  assumes "run_inv d st"
  shows "run_inv d (process_batch model batch_size i st)"
proof -
  let ?xs = "rows_to_process (df st) (i * batch_size)
      (min (i * batch_size + batch_size) (length (df st)))"
  have len: "length (df st) = length d"
    using assms by (auto simp: run_inv_def dest: list_all2_lengthD)
  have "list_all (\<lambda>idx. idx < length d \<and> unresolved (d ! idx)) ?xs"
    using assms len
    by (auto simp: rows_to_process_def list_all_iff run_inv_def list_all2_conv_all_nth
          intro: row_ok_unresolved)
  then have "run_inv d (fold (\<lambda>idx st. process_row model st idx) ?xs st)"
    using assms by (intro fold_process_row_inv)
  then show ?thesis
    using assms
    by (simp add: process_batch_def Let_def clear_inv to_csv_inv apply_results_inv)
qed

lemma fold_process_batch_inv:
  "run_inv d st \<Longrightarrow> run_inv d (fold (process_batch model batch_size) is st)"
  by (induction "is" arbitrary: st) (simp_all add: process_batch_inv)

lemma init_inv:
  "run_inv d \<lparr>df = d, results_dict = [], calls = c, queried = [], written = []\<rparr>"
  by (simp add: run_inv_def list_all2_conv_all_nth row_ok_refl)

lemma process_dataset_inv:
  "process_dataset model d c bs = Inr st \<Longrightarrow> run_inv d st"
  by (auto simp: process_dataset_def Let_def fold_process_batch_inv init_inv split: if_splits)

lemma row_ok_resolved: "row_ok r0 r \<Longrightarrow> \<not> unresolved r0 \<Longrightarrow> r = r0"
  by (auto simp: row_ok_def)

lemma row_ok_cases:
  "row_ok r0 r \<Longrightarrow> r = r0 \<or> (\<exists>v. r = r0\<lparr>Usecase := Some v\<rparr> \<and> (validate_usecase v \<or> v = ''unknown''))"
  by (auto simp: row_ok_def accepted_def split: option.splits)

lemma process_dataset_resolved:
  assumes "process_dataset model d c bs = Inr st" "i < length d" "\<not> unresolved (d ! i)"
  shows "i \<notin> set (queried st) \<and> df st ! i = d ! i \<and> (\<forall>w \<in> set (written st). w ! i = d ! i)"
proof -
  have inv: "run_inv d st" using assms(1) by (rule process_dataset_inv)
  have "i \<notin> set (queried st)"
    using inv assms(3) by (auto simp: run_inv_def list_all_iff)
  moreover have "df st ! i = d ! i"
    using inv assms(2,3) by (auto simp: run_inv_def list_all2_conv_all_nth intro: row_ok_resolved)
  moreover have "w ! i = d ! i" if "w \<in> set (written st)" for w
    using inv assms(2,3) that
    by (auto simp: run_inv_def list_all_iff list_all2_conv_all_nth intro: row_ok_resolved)
  ultimately show ?thesis by blast
qed

subsection \<open>Case folding\<close>

lemma code_inj: "code a = code b \<Longrightarrow> a = b"
  by (simp add: code_def)
lemma lower_idem: "lower (lower c) = lower c"
  by (rule code_inj) (simp add: code_lower)
lemma is_word_lower: "is_word (lower c) = is_word c"
  unfolding is_word_def Let_def code_lower by (simp; arith)
lemma lit_prefix_lower:
  "lit_prefix True (map lower u) (p, u @ post) = Some (if u = [] then p else Some (last u), post)"
  by (induction u arbitrary: p) (simp_all add: chr_eq_def lower_idem)
subsection \<open>The matcher\<close>

lemma match_at_None: "match_at ic r cur = None \<longleftrightarrow> results ic r cur = []"
  by (simp add: match_at_def split: list.splits)

lemma scan_here: "results ic r (p, t) \<noteq> [] \<Longrightarrow> scan ic r (p, t) \<noteq> None"
  by (cases t) (auto simp: match_at_None split: option.splits)

lemma scan_found:
  "results ic r (if a = [] then p else Some (last a), t) \<noteq> [] \<Longrightarrow> scan ic r (p, a @ t) \<noteq> None"
proof (induction a arbitrary: p)
  case Nil
  then show ?case by (simp add: scan_here)
next
  case (Cons x a)
  have "results ic r (if a = [] then Some x else Some (last a), t) \<noteq> []"
    using Cons.prems by (simp split: if_splits)
  then have "scan ic r (Some x, a @ t) \<noteq> None" by (rule Cons.IH)
  then show ?case by (simp split: option.splits)
qed

lemma in_results_SeqI:
  "c \<in> set (results ic a cur) \<Longrightarrow> d \<in> set (results ic b c) \<Longrightarrow> d \<in> set (results ic (Seq a b) cur)"
  by auto

lemma in_results_AltsI:
  "r \<in> set rs \<Longrightarrow> d \<in> set (results ic r cur) \<Longrightarrow> d \<in> set (results ic (Alts rs) cur)"
  by auto

lemma in_results_BndI: "at_boundary cur \<Longrightarrow> cur \<in> set (results ic Bnd cur)"
  by simp

lemma in_results_StrI: "lit_prefix ic w cur = Some c \<Longrightarrow> c \<in> set (results ic (Str w) cur)"
  by simp

lemma word_re_match:
  assumes "w \<in> set ws" "map lower u = w" "u \<noteq> []" "\<forall>c \<in> set w. is_word c"
    and "at_boundary (q, u @ post)" "post = [] \<or> \<not> is_word (hd post)"
  shows "results True (word_re ws) (q, u @ post) \<noteq> []"
proof -
  have wne: "w \<noteq> []" using assms(2,3) by auto
  have "last w = lower (last u)" using assms(3) last_map [of u lower] unfolding assms(2) by simp
  moreover have "last w \<in> set w" using wne by (rule last_in_set)
  ultimately have "is_word (lower (last u))" using assms(4) by simp
  then have lw: "is_word (last u)" by (simp add: is_word_lower)
  have "lit_prefix True w (q, u @ post) = Some (Some (last u), post)"
    using assms(3) lit_prefix_lower [of u q post] unfolding assms(2) by simp
  then have 1: "(Some (last u), post) \<in> set (results True (Str w) (q, u @ post))"
    by (rule in_results_StrI)
  have "Str w \<in> set (map Str ws)" using assms(1) by simp
  then have 2: "(Some (last u), post) \<in> set (results True (Alts (map Str ws)) (q, u @ post))"
    using 1 by (rule in_results_AltsI)
  have "at_boundary (Some (last u), post)"
    using lw assms(6) by (cases post) (simp_all add: at_boundary_def)
  then have 3: "(Some (last u), post) \<in> set (results True Bnd (Some (last u), post))"
    by (rule in_results_BndI)
  have 4: "(Some (last u), post) \<in> set (results True (Seq (Alts (map Str ws)) Bnd) (q, u @ post))"
    using 2 3 by (rule in_results_SeqI)
  have 5: "(q, u @ post) \<in> set (results True Bnd (q, u @ post))"
    using assms(5) by (rule in_results_BndI)
  have "(Some (last u), post) \<in> set (results True (word_re ws) (q, u @ post))"
    unfolding word_re_def using 5 4 by (rule in_results_SeqI)
  then show ?thesis by (metis empty_iff empty_set)
qed

lemma re_search_word:
  assumes "w \<in> set ws" "map lower u = w" "u \<noteq> []" "\<forall>c \<in> set w. is_word c"
    and "pre = [] \<or> \<not> is_word (last pre)" "post = [] \<or> \<not> is_word (hd post)"
  shows "re_search True (word_re ws) (pre @ u @ post)"
proof -
  let ?q = "if pre = [] then None else Some (last pre)"
  obtain x u' where u: "u = x # u'" using assms(3) by (cases u) auto
  have "lower x \<in> set w" using assms(2) u by auto
  then have "is_word (lower x)" using assms(4) by simp
  then have hu: "is_word x" by (simp add: is_word_lower)
  have "at_boundary (?q, u @ post)"
    using hu assms(5) u by (auto simp: at_boundary_def)
  then have "results True (word_re ws) (?q, u @ post) \<noteq> []"
    by (rule word_re_match [OF assms(1,2,3,4) _ assms(6)])
  then show ?thesis unfolding re_search_def by (rule scan_found)
qed

subsection \<open>Searching and substituting\<close>

lemma sub_from_no_match: "scan ic r (p, s) = None \<Longrightarrow> sub_from ic r (p, s) = s"
proof (induction s arbitrary: p)
  case Nil
  show ?case by simp
next
  case (Cons x t)
  from Cons.prems have m: "match_at ic r (p, x # t) = None" and s: "scan ic r (Some x, t) = None"
    by (simp_all split: option.splits)
  from s have "sub_from ic r (Some x, t) = t" by (rule Cons.IH)
  then show ?case using m by simp
qed

lemma re_sub_no_match:
  assumes "\<not> re_search ic r s"
  shows "re_sub ic r s = s"
proof -
  have "scan ic r (None, s) = None" using assms unfolding re_search_def by blast
  then show ?thesis unfolding re_sub_def by (rule sub_from_no_match)
qed

lemma scan_SomeD:
  "scan ic r (p, s) \<noteq> None \<Longrightarrow>
     \<exists>a t. s = a @ t \<and> results ic r (if a = [] then p else Some (last a), t) \<noteq> []"
proof (induction s arbitrary: p)
  case Nil
  then show ?case by (simp add: match_at_None)
next
  case (Cons x s)
  show ?case
  proof (cases "match_at ic r (p, x # s)")
    case (Some c)
    then have "results ic r (p, x # s) \<noteq> []" using match_at_None [of ic r "(p, x # s)"] by simp
    then have "x # s = [] @ (x # s) \<and> results ic r (if [] = ([]::string) then p else Some (last []), x # s) \<noteq> []"
      by simp
    then show ?thesis by blast
  next
    case None
    then have "scan ic r (Some x, s) \<noteq> None" using Cons.prems by simp
    then obtain a t where at: "s = a @ t"
      "results ic r (if a = [] then Some x else Some (last a), t) \<noteq> []"
      using Cons.IH by blast
    have "x # s = (x # a) @ t \<and>
        results ic r (if x # a = [] then p else Some (last (x # a)), t) \<noteq> []"
      using at by (cases a) auto
    then show ?thesis by blast
  qed
qed

text \<open>A pattern whose matches do not depend on the character before the cursor.\<close>

lemma re_search_iff:
  assumes "\<And>p t. results ic r (p, t) \<noteq> [] \<longleftrightarrow> M t"
  shows "re_search ic r s \<longleftrightarrow> (\<exists>a t. s = a @ t \<and> M t)"
proof
  assume "re_search ic r s"
  then have "scan ic r (None, s) \<noteq> None" by (simp add: re_search_def)
  then obtain a t where "s = a @ t" "results ic r (if a = [] then None else Some (last a), t) \<noteq> []"
    using scan_SomeD by blast
  then show "\<exists>a t. s = a @ t \<and> M t" using assms by blast
next
  assume "\<exists>a t. s = a @ t \<and> M t"
  then obtain a t where at: "s = a @ t" "M t" by blast
  then have "results ic r (if a = [] then None else Some (last a), t) \<noteq> []" using assms by blast
  then have "scan ic r (None, a @ t) \<noteq> None" by (rule scan_found)
  then show "re_search ic r s" using at by (simp add: re_search_def)
qed

lemma lit_prefix_append:
  "lit_prefix ic (w1 @ w2) cur =
     (case lit_prefix ic w1 cur of None \<Rightarrow> None | Some c \<Rightarrow> lit_prefix ic w2 c)"
proof (induction w1 arbitrary: cur)
  case Nil
  show ?case by simp
next
  case (Cons c w1)
  obtain p t where cur: "cur = (p, t)" by (cases cur)
  show ?case unfolding cur by (cases t) (simp_all add: Cons.IH)
qed

lemma lit_prefix_ci_D:
  "lit_prefix True w (p, t) \<noteq> None \<Longrightarrow> \<exists>u t2. t = u @ t2 \<and> map lower u = map lower w"
proof (induction w arbitrary: p t)
  case Nil
  then show ?case by simp
next
  case (Cons c w)
  then obtain x t' where t: "t = x # t'" by (cases t) auto
  from Cons.prems t have cx: "lower x = lower c" and rest: "lit_prefix True w (Some x, t') \<noteq> None"
    by (simp_all add: chr_eq_def split: if_splits)
  from Cons.IH [OF rest] obtain u t2 where u: "t' = u @ t2" "map lower u = map lower w" by blast
  have "t = (x # u) @ t2 \<and> map lower (x # u) = map lower (c # w)" using t u cx by simp
  then show ?case by blast
qed

lemma lit_prefix_ci_I:
  assumes "map lower w = w" "map lower u = w"
  shows "lit_prefix True w (p, u @ t2) = Some (if u = [] then p else Some (last u), t2)"
  using lit_prefix_lower [of u p t2] assms by simp

text \<open>The text at a cursor starts with a spelling of the lower-case word \<open>w\<close>.\<close>

lemma lit_prefix_ci_iff:
  assumes "map lower w = w"
  shows "lit_prefix True w (p, t) \<noteq> None \<longleftrightarrow> (\<exists>u t2. t = u @ t2 \<and> map lower u = w)"
proof
  assume "lit_prefix True w (p, t) \<noteq> None"
  then show "\<exists>u t2. t = u @ t2 \<and> map lower u = w" using lit_prefix_ci_D assms by fastforce
next
  assume "\<exists>u t2. t = u @ t2 \<and> map lower u = w"
  then obtain u t2 where "t = u @ t2" "map lower u = w" by blast
  then show "lit_prefix True w (p, t) \<noteq> None" using lit_prefix_ci_I [OF assms] by simp
qed

lemma results_Str_nonempty: "results ic (Str w) cur \<noteq> [] \<longleftrightarrow> lit_prefix ic w cur \<noteq> None"
  by (simp split: option.splits)

lemma results_Seq_nonempty:
  "results ic (Seq a b) cur \<noteq> [] \<longleftrightarrow> (\<exists>c \<in> set (results ic a cur). results ic b c \<noteq> [])"
  by auto

lemma results_Alts_nonempty:
  "results ic (Alts rs) cur \<noteq> [] \<longleftrightarrow> (\<exists>r \<in> set rs. results ic r cur \<noteq> [])"
  by auto

lemma results_Seq_Str_nonempty:
  "results ic (Seq (Str w) b) cur \<noteq> [] \<longleftrightarrow>
     (\<exists>c. lit_prefix ic w cur = Some c \<and> results ic b c \<noteq> [])"
  by (cases "lit_prefix ic w cur") auto

lemma results_Seq_Str_Str:
  "results ic (Seq (Str w1) (Str w2)) cur \<noteq> [] \<longleftrightarrow> lit_prefix ic (w1 @ w2) cur \<noteq> None"
  by (auto simp: lit_prefix_append split: option.splits)

text \<open>Some word of the list is spelled at the start of the text, in any letter case.\<close>

lemma connector_starts:
  "results True connector_re (p, t) \<noteq> [] \<longleftrightarrow>
     (\<exists>w \<in> set [''used in'', ''used for'', ''used to'', ''treatment of'', ''indicated for'',
                  ''helps with'', ''treats'']. lit_prefix True w (p, t) \<noteq> None)"
proof -
  have u: "''used in'' = ''used '' @ ''in''" "''used for'' = ''used '' @ ''for''"
    "''used to'' = ''used '' @ ''to''" by simp_all
  have "results True (Seq (Str ''used '') (Alts [Str ''in'', Str ''for'', Str ''to''])) (p, t) \<noteq> [] \<longleftrightarrow>
      lit_prefix True ''used in'' (p, t) \<noteq> None \<or> lit_prefix True ''used for'' (p, t) \<noteq> None \<or>
      lit_prefix True ''used to'' (p, t) \<noteq> None"
    unfolding u lit_prefix_append results_Seq_Str_nonempty results_Alts_nonempty
    by (auto simp: results_Str_nonempty split: option.splits)
  then show ?thesis
    unfolding connector_re_def results_Alts_nonempty
    by (simp add: results_Str_nonempty del: results.simps)
qed

lemma marker_starts:
  "results True marker_re (p, t) \<noteq> [] \<longleftrightarrow>
     (\<exists>w \<in> set [''such as'', ''including'', ''like'', ''e.g.'', ''i.e.'']. lit_prefix True w (p, t) \<noteq> None)"
  unfolding marker_re_def results_Alts_nonempty
  by (simp add: results_Str_nonempty del: results.simps)

lemma not_run_self: "cur \<in> set (not_run ic c cur)"
proof -
  obtain p t where cur: "cur = (p, t)" by (cases cur)
  show ?thesis unfolding cur by (cases t) simp_all
qed

lemma not_run_suffix: "c2 \<in> set (not_run ic c (p, t)) \<Longrightarrow> suffix (snd c2) t"
proof (induction t arbitrary: p)
  case Nil
  then show ?case by simp
next
  case (Cons x t)
  then show ?case by (auto simp: suffix_Cons split: if_splits)
qed

lemma not_run_reach:
  "\<forall>x \<in> set b. \<not> chr_eq ic c x \<Longrightarrow>
     (if b = [] then p else Some (last b), rest) \<in> set (not_run ic c (p, b @ rest))"
proof (induction b arbitrary: p)
  case Nil
  show ?case using not_run_self [of "(p, rest)"] by simp
next
  case (Cons x b)
  have "(if b = [] then Some x else Some (last b), rest) \<in> set (not_run ic c (Some x, b @ rest))"
    using Cons.prems by (intro Cons.IH) simp
  then show ?case using Cons.prems by auto
qed

lemma results_Opt_nonempty: "results ic (Opt r) cur \<noteq> []"
  by simp

lemma tail_nonempty:
  "results True (Seq (Str '' '') (Seq (StarNot c) (Opt r))) cur \<noteq> [] \<longleftrightarrow>
     lit_prefix True '' '' cur \<noteq> None"
proof -
  have "results True (Seq (StarNot c) (Opt r)) c' \<noteq> []" for c'
  proof -
    have "c' \<in> set (results True (StarNot c) c')" using not_run_self [of c' True c] by simp
    moreover have "results True (Opt r) c' \<noteq> []" by (rule results_Opt_nonempty)
    ultimately show ?thesis unfolding results_Seq_nonempty by blast
  qed
  then show ?thesis unfolding results_Seq_Str_nonempty by (cases "lit_prefix True '' '' cur") simp_all
qed

lemma space_of_group:
  "lit_prefix True (CHR '' '' # w) cur = Some c' \<Longrightarrow> lit_prefix True '' '' cur \<noteq> None"
proof -
  obtain p t where cur: "cur = (p, t)" by (cases cur)
  show "lit_prefix True (CHR '' '' # w) cur = Some c' \<Longrightarrow> lit_prefix True '' '' cur \<noteq> None"
    unfolding cur by (cases t) (simp_all split: if_splits)
qed

lemma opt_group_nonempty:
  assumes "\<And>c. results True rest c \<noteq> [] \<longleftrightarrow> lit_prefix True '' '' c \<noteq> None"
    and "\<forall>w \<in> set ws. \<exists>w'. w = CHR '' '' # w'"
  shows "results True (Seq (Opt (Alts (map Str ws))) rest) cur \<noteq> [] \<longleftrightarrow>
           lit_prefix True '' '' cur \<noteq> None"
proof
  assume "results True (Seq (Opt (Alts (map Str ws))) rest) cur \<noteq> []"
  then obtain c1 where c1: "c1 \<in> set (results True (Opt (Alts (map Str ws))) cur)"
    and r: "results True rest c1 \<noteq> []"
    unfolding results_Seq_nonempty by blast
  from c1 have "c1 = cur \<or> (\<exists>w \<in> set ws. lit_prefix True w cur = Some c1)"
    by (auto split: option.splits)
  then show "lit_prefix True '' '' cur \<noteq> None"
  proof
    assume "c1 = cur"
    then show ?thesis using r assms(1) by simp
  next
    assume "\<exists>w \<in> set ws. lit_prefix True w cur = Some c1"
    then obtain w where w: "w \<in> set ws" "lit_prefix True w cur = Some c1" by blast
    then obtain w' where "w = CHR '' '' # w'" using assms(2) by blast
    then show ?thesis using w(2) space_of_group by blast
  qed
next
  assume "lit_prefix True '' '' cur \<noteq> None"
  then have "results True rest cur \<noteq> []" using assms(1) by simp
  moreover have "cur \<in> set (results True (Opt (Alts (map Str ws))) cur)" by simp
  ultimately show "results True (Seq (Opt (Alts (map Str ws))) rest) cur \<noteq> []"
    unfolding results_Seq_nonempty by blast
qed

lemma clause_starts:
  "results True clause_re (p, t) \<noteq> [] \<longleftrightarrow>
     (\<exists>w \<in> set [''it '', ''this '']. lit_prefix True w (p, t) \<noteq> None)"
proof -
  let ?tail = "Seq (Str '' '') (Seq (StarNot (CHR '','')) (Opt (Str '','')))"
  let ?g2 = "Seq (Opt (Alts (map Str ['' be'', '' also'']))) ?tail"
  let ?g1 = "Seq (Opt (Alts (map Str ['' is'', '' can'', '' may'', '' will'']))) ?g2"
  have 2: "results True ?g2 c \<noteq> [] \<longleftrightarrow> lit_prefix True '' '' c \<noteq> None" for c
    by (rule opt_group_nonempty [OF tail_nonempty]) simp
  have 1: "results True ?g1 c \<noteq> [] \<longleftrightarrow> lit_prefix True '' '' c \<noteq> None" for c
    by (rule opt_group_nonempty [OF 2]) simp
  have re: "clause_re = Seq (Alts [Str ''it'', Str ''this'']) ?g1"
    by (simp add: clause_re_def)
  have w: "''it '' = ''it'' @ '' ''" "''this '' = ''this'' @ '' ''" by simp_all
  have "results True clause_re (p, t) \<noteq> [] \<longleftrightarrow>
      (\<exists>c \<in> set (results True (Alts [Str ''it'', Str ''this'']) (p, t)). results True ?g1 c \<noteq> [])"
    unfolding re by (rule results_Seq_nonempty)
  also have "\<dots> \<longleftrightarrow>
      (\<exists>c \<in> set (results True (Alts [Str ''it'', Str ''this'']) (p, t)). lit_prefix True '' '' c \<noteq> None)"
    by (simp only: 1)
  also have "\<dots> \<longleftrightarrow> lit_prefix True ''it '' (p, t) \<noteq> None \<or> lit_prefix True ''this '' (p, t) \<noteq> None"
    unfolding w lit_prefix_append by (auto split: option.splits)
  finally show ?thesis by simp
qed

lemma paren_starts:
  "results False paren_re (p, t) \<noteq> [] \<longleftrightarrow> (\<exists>t1. t = CHR ''('' # t1 \<and> CHR '')'' \<in> set t1)"
proof
  assume "results False paren_re (p, t) \<noteq> []"
  then have "\<exists>c1. lit_prefix False ''('' (p, t) = Some c1 \<and>
      results False (Seq (StarNot (CHR '')'')) (Str '')'')) c1 \<noteq> []"
    unfolding paren_re_def by (simp only: results_Seq_Str_nonempty)
  then obtain c1 where c1: "lit_prefix False ''('' (p, t) = Some c1"
    and r: "results False (Seq (StarNot (CHR '')'')) (Str '')'')) c1 \<noteq> []" by blast
  from r obtain c2 where c2': "c2 \<in> set (results False (StarNot (CHR '')'')) c1)"
    and c3': "results False (Str '')'') c2 \<noteq> []"
    unfolding results_Seq_nonempty by blast
  from c2' have c2: "c2 \<in> set (not_run False (CHR '')'') c1)" by simp
  from c3' have c3: "lit_prefix False '')'' c2 \<noteq> None" unfolding results_Str_nonempty .
  from c1 obtain t1 where t: "t = CHR ''('' # t1" and c1': "c1 = (Some (CHR ''(''), t1)"
    by (cases t) (auto simp: chr_eq_def split: if_splits)
  from c2 have "suffix (snd c2) t1" unfolding c1' by (rule not_run_suffix)
  moreover from c3 have "CHR '')'' \<in> set (snd c2)"
    by (cases c2; cases "snd c2") (auto simp: chr_eq_def split: if_splits)
  ultimately have "CHR '')'' \<in> set t1" by (auto simp: suffix_def)
  then show "\<exists>t1. t = CHR ''('' # t1 \<and> CHR '')'' \<in> set t1" using t by blast
next
  assume "\<exists>t1. t = CHR ''('' # t1 \<and> CHR '')'' \<in> set t1"
  then obtain t1 where t: "t = CHR ''('' # t1" and m: "CHR '')'' \<in> set t1" by blast
  from m obtain b rest where b: "t1 = b @ CHR '')'' # rest" "CHR '')'' \<notin> set b"
    by (meson split_list_first)
  let ?q = "if b = [] then Some (CHR ''('') else Some (last b)"
  have "\<forall>x \<in> set b. \<not> chr_eq False (CHR '')'') x" using b(2) by (auto simp: chr_eq_def)
  then have "(?q, CHR '')'' # rest) \<in> set (not_run False (CHR '')'') (Some (CHR ''(''), b @ CHR '')'' # rest))"
    by (rule not_run_reach)
  then have 2: "(?q, CHR '')'' # rest) \<in>
      set (results False (StarNot (CHR '')'')) (Some (CHR ''(''), b @ CHR '')'' # rest))" by simp
  have "lit_prefix False '')'' (?q, CHR '')'' # rest) = Some (Some (CHR '')''), rest)"
    by (simp add: chr_eq_def)
  then have 3: "(Some (CHR '')''), rest) \<in> set (results False (Str '')'') (?q, CHR '')'' # rest))"
    by (rule in_results_StrI)
  have "lit_prefix False ''('' (p, t) = Some (Some (CHR ''(''), b @ CHR '')'' # rest)"
    using t b(1) by (simp add: chr_eq_def)
  then have 1: "(Some (CHR ''(''), b @ CHR '')'' # rest) \<in> set (results False (Str ''('') (p, t))"
    by (rule in_results_StrI)
  have "(Some (CHR '')''), rest) \<in> set (results False paren_re (p, t))"
    unfolding paren_re_def
    by (rule in_results_SeqI [OF 1]) (rule in_results_SeqI [OF 2 3])
  then show "results False paren_re (p, t) \<noteq> []" by (metis empty_iff empty_set)
qed

subsection \<open>Splitting, stripping and joining\<close>

lemma str_split_nonempty: "str_split c s \<noteq> []"
  by (induction s) (auto split: list.splits)

lemma str_split_no_sep: "c \<notin> set a \<Longrightarrow> str_split c a = [a]"
  by (induction a) (auto split: list.splits)

lemma str_split_append: "c \<notin> set a \<Longrightarrow> str_split c (a @ c # b) = a # str_split c b"
  by (induction a) (auto split: list.splits)

lemma str_split_not_sep: "x \<noteq> c \<Longrightarrow> str_split c (x # s) = (x # hd (str_split c s)) # tl (str_split c s)"
  using str_split_nonempty [of c s] by (cases "str_split c s") auto

lemma split_piece_sep_free: "piece \<in> set (str_split c s) \<Longrightarrow> c \<notin> set piece"
proof (induction s arbitrary: piece)
  case Nil
  then show ?case by simp
next
  case (Cons x s)
  show ?case
  proof (cases "x = c")
    case True
    then show ?thesis using Cons by auto
  next
    case False
    obtain y ys where y: "str_split c s = y # ys"
      using str_split_nonempty [of c s] by (cases "str_split c s") auto
    have "c \<notin> set y" "\<forall>z \<in> set ys. c \<notin> set z" using Cons.IH y by auto
    then show ?thesis using Cons.prems False y by auto
  qed
qed

lemma split_first_prefix: "str_split c s = y # ys \<Longrightarrow> prefix y s"
proof (induction s arbitrary: y ys)
  case Nil
  then show ?case by simp
next
  case (Cons x s)
  show ?case
  proof (cases "x = c")
    case True
    then show ?thesis using Cons.prems by auto
  next
    case False
    obtain z zs where z: "str_split c s = z # zs"
      using str_split_nonempty [of c s] by (cases "str_split c s") auto
    have "prefix z s" using z by (rule Cons.IH)
    then show ?thesis using Cons.prems False z by auto
  qed
qed

lemma split_piece_sublist: "piece \<in> set (str_split c s) \<Longrightarrow> sublist piece s"
proof (induction s arbitrary: piece)
  case Nil
  then show ?case by simp
next
  case (Cons x s)
  obtain z zs where z: "str_split c s = z # zs"
    using str_split_nonempty [of c s] by (cases "str_split c s") auto
  show ?case
  proof (cases "x = c")
    case True
    then have "piece = [] \<or> piece \<in> set (str_split c s)" using Cons.prems by auto
    then show ?thesis using Cons.IH by (auto simp: sublist_Cons_right)
  next
    case False
    then have "piece = x # z \<or> piece \<in> set zs" using Cons.prems z by auto
    then show ?thesis
    proof
      assume "piece = x # z"
      moreover have "prefix z s" using z by (rule split_first_prefix)
      ultimately show ?thesis by auto
    next
      assume "piece \<in> set zs"
      then have "sublist piece s" using Cons.IH z by auto
      then show ?thesis by (simp add: sublist_Cons_right)
    qed
  qed
qed

lemma join_split: "str_join [c] (str_split c s) = s"
proof (induction s)
  case Nil
  show ?case by simp
next
  case (Cons x s)
  obtain z zs where z: "str_split c s = z # zs"
    using str_split_nonempty [of c s] by (cases "str_split c s") auto
  show ?case using Cons.IH z by (cases zs) auto
qed

lemma strip_sublist: "sublist (strip_with P s) s"
proof -
  have "suffix (dropWhile P (rev (dropWhile P s))) (rev (dropWhile P s))"
    by (rule suffix_dropWhile)
  then have "prefix (strip_with P s) (dropWhile P s)"
    unfolding strip_with_def by (simp add: suffix_to_prefix)
  moreover have "suffix (dropWhile P s) s" by (rule suffix_dropWhile)
  ultimately show ?thesis unfolding sublist_altdef' by blast
qed

lemma strip_id:
  assumes "s \<noteq> []" "\<not> P (hd s)" "\<not> P (last s)"
  shows "strip_with P s = s"
proof -
  have 1: "dropWhile P s = s" using assms(2) by (simp add: dropWhile_eq_self_iff)
  have "hd (rev s) = last s" by (rule hd_rev)
  then have 2: "dropWhile P (rev s) = rev s" using assms(3) by (simp add: dropWhile_eq_self_iff)
  show ?thesis unfolding strip_with_def 1 2 by simp
qed

lemma strip_ends:
  assumes "strip_with P s \<noteq> []"
  shows "\<not> P (hd (strip_with P s)) \<and> \<not> P (last (strip_with P s))"
proof -
  let ?t = "dropWhile P s"
  let ?r = "dropWhile P (rev ?t)"
  have r: "?r \<noteq> []" using assms by (simp add: strip_with_def)
  have t: "?t \<noteq> []"
  proof
    assume a: "?t = []"
    have "?r = []" unfolding a by simp
    then show False using r by blast
  qed
  have "\<not> P (hd ?r)" using r by (rule hd_dropWhile)
  then have l: "\<not> P (last (strip_with P s))" unfolding strip_with_def by (simp add: last_rev)
  have "suffix ?r (rev ?t)" by (rule suffix_dropWhile)
  then obtain zs where zs: "rev ?t = zs @ ?r" by (auto simp: suffix_def)
  have "last (zs @ ?r) = last ?r" using r by (rule last_appendR)
  then have "last (rev ?t) = last ?r" by (simp only: zs [symmetric])
  then have "hd ?t = last ?r" by (simp add: last_rev)
  moreover have "\<not> P (hd ?t)" using t by (rule hd_dropWhile)
  ultimately have "\<not> P (hd (strip_with P s))" unfolding strip_with_def by (simp add: hd_rev)
  then show ?thesis using l by simp
qed

lemma strip_idem: "strip_with P (strip_with P s) = strip_with P s"
proof (cases "strip_with P s = []")
  case True
  have "strip_with P [] = []" by (simp add: strip_with_def)
  then show ?thesis unfolding True .
next
  case False
  then show ?thesis using strip_ends [OF False] by (intro strip_id) simp_all
qed

lemma strip_Cons: "P x \<Longrightarrow> strip_with P (x # s) = strip_with P s"
  by (simp add: strip_with_def)

lemma filter_dropWhile: "\<forall>c. Q c \<longrightarrow> \<not> P c \<Longrightarrow> filter P (dropWhile Q s) = filter P s"
  by (induction s) auto

lemma filter_strip: 
  assumes "\<forall>c. Q c \<longrightarrow> \<not> P c"
  shows "filter P (strip_with Q s) = filter P s"
proof -
  have "filter P (strip_with Q s) = rev (filter P (dropWhile Q (rev (dropWhile Q s))))"
    unfolding strip_with_def by (simp add: rev_filter)
  also have "\<dots> = rev (filter P (rev (dropWhile Q s)))"
    using assms by (simp add: filter_dropWhile)
  also have "\<dots> = filter P (dropWhile Q s)" by (simp add: rev_filter [symmetric])
  also have "\<dots> = filter P s" using assms by (rule filter_dropWhile)
  finally show ?thesis .
qed

lemma filter_join:
  "filter P sep = [] \<Longrightarrow> filter P (str_join sep xs) = concat (map (filter P) xs)"
  by (induction sep xs rule: str_join.induct) simp_all

lemma subseq_concat_filter:
  "subseq (concat (map f (filter ok xs))) (concat (map f xs))"
  by (induction xs) (auto intro: list_emb_append_mono list_emb_append2)

lemma split_join:
  assumes "items \<noteq> []" "\<forall>i \<in> set items. CHR '','' \<notin> set i"
  shows "str_split (CHR '','') (str_join '', '' items) = hd items # map ((#) (CHR '' '')) (tl items)"
  using assms
proof (induction "'', ''" items rule: str_join.induct)
  case 1
  then show ?case by simp
next
  case (2 x)
  then show ?case by (simp add: str_split_no_sep)
next
  case (3 x y ys)
  have ih: "str_split (CHR '','') (str_join '', '' (y # ys)) = y # map ((#) (CHR '' '')) ys"
    using 3 by simp
  have "str_split (CHR '','') (str_join '', '' (x # y # ys)) =
      x # str_split (CHR '','') (CHR '' '' # str_join '', '' (y # ys))"
    using 3(3) by (simp add: str_split_append)
  also have "str_split (CHR '','') (CHR '' '' # str_join '', '' (y # ys)) =
      (CHR '' '' # y) # map ((#) (CHR '' '')) ys"
    using ih by (simp add: str_split_not_sep)
  finally show ?case by simp
qed

subsection \<open>What is found in the joined items was in the text\<close>

lemma sublist_across_sep:
  assumes "sublist u (a @ c # b)" "c \<notin> set u"
  shows "sublist u a \<or> sublist u b"
proof -
  from assms(1) consider "sublist u a" | "sublist u (c # b)"
    | xs1 xs2 where "u = xs1 @ xs2" "suffix xs1 a" "prefix xs2 (c # b)"
    unfolding sublist_append by blast
  then show ?thesis
  proof cases
    case 1
    then show ?thesis by simp
  next
    case 2
    then have "prefix u (c # b) \<or> sublist u b" by (simp add: sublist_Cons_right)
    then show ?thesis
    proof
      assume "prefix u (c # b)"
      then have "u = []" using assms(2) by (cases u) auto
      then show ?thesis by simp
    next
      assume "sublist u b" then show ?thesis by simp
    qed
  next
    case 3
    from 3(3) have "xs2 = []" using assms(2) 3(1) by (cases xs2) auto
    then have "suffix u a" using 3(1,2) by simp
    then show ?thesis by auto
  qed
qed

lemma sublist_join:
  assumes "sublist u (str_join '', '' items)" "u \<noteq> []" "CHR '','' \<notin> set u" "hd u \<noteq> CHR '' ''"
  shows "\<exists>i \<in> set items. sublist u i"
  using assms(1)
proof (induction "'', ''" items rule: str_join.induct)
  case 1
  then show ?case using assms(2) by simp
next
  case (2 x)
  then show ?case by simp
next
  case (3 x y ys)
  then have "sublist u (x @ CHR '','' # (CHR '' '' # str_join '', '' (y # ys)))" by simp
  then have "sublist u x \<or> sublist u (CHR '' '' # str_join '', '' (y # ys))"
    using assms(3) by (rule sublist_across_sep)
  then show ?case
  proof
    assume "sublist u x" then show ?thesis by simp
  next
    assume "sublist u (CHR '' '' # str_join '', '' (y # ys))"
    then have "prefix u (CHR '' '' # str_join '', '' (y # ys)) \<or> sublist u (str_join '', '' (y # ys))"
      by (simp add: sublist_Cons_right)
    moreover have "\<not> prefix u (CHR '' '' # str_join '', '' (y # ys))"
      using assms(2,4) by (cases u) auto
    ultimately have "sublist u (str_join '', '' (y # ys))" by blast
    then have "\<exists>i \<in> set (y # ys). sublist u i" by (rule 3(1))
    then show ?thesis by auto
  qed
qed

lemma sublist_join_items:
  assumes "sublist u (join_items s)" "u \<noteq> []" "CHR '','' \<notin> set u" "hd u \<noteq> CHR '' ''"
  shows "sublist u s"
proof -
  obtain i where i: "i \<in> set (filter (\<lambda>item. length item < 50 \<and> length item > 0)
      (map str_strip (str_split (CHR '','') s)))" and ui: "sublist u i"
    using sublist_join [OF assms(1) [unfolded join_items_def Let_def] assms(2,3,4)] by blast
  from i obtain piece where piece: "piece \<in> set (str_split (CHR '','') s)" "i = str_strip piece"
    by auto
  have "sublist i piece" unfolding piece(2) str_strip_def by (rule strip_sublist)
  with ui have "sublist u piece" by (rule sublist_order.order.trans)
  moreover have "sublist piece s" using piece(1) by (rule split_piece_sublist)
  ultimately show ?thesis by (rule sublist_order.order.trans)
qed

lemma is_space_lower: "is_space (lower c) = is_space c"
  unfolding is_space_def Let_def code_lower by (simp; arith)

lemma lower_eq_comma: "lower c = CHR '','' \<longleftrightarrow> c = CHR '',''"
proof
  assume "lower c = CHR '',''"
  then have "code (lower c) = 44" by (simp add: code_def)
  then have "code c = 44" unfolding code_lower by (simp split: if_splits)
  then show "c = CHR '',''" by (intro code_inj) (simp add: code_def)
next
  assume "c = CHR '',''" then show "lower c = CHR '',''" by (simp add: lower_def code_def)
qed

lemma is_space_blank: "is_space (CHR '' '')"
  by (simp add: is_space_def code_def)

text \<open>
  A pattern that matches where one of the words of \<open>W\<close> is spelled: when it is found in
  the joined items, it is found in the text.
\<close>

lemma word_search_transfer:
  assumes char: "\<And>p t. results True r (p, t) \<noteq> [] \<longleftrightarrow> (\<exists>w \<in> set W. lit_prefix True w (p, t) \<noteq> None)"
    and W: "\<forall>w \<in> set W. map lower w = w \<and> w \<noteq> [] \<and> CHR '','' \<notin> set w \<and> \<not> is_space (hd w)"
    and found: "re_search True r (join_items s)"
  shows "re_search True r s"
proof -
  let ?M = "\<lambda>t. \<exists>w \<in> set W. \<exists>u t2. t = u @ t2 \<and> map lower u = w"
  have char': "results True r (p, t) \<noteq> [] \<longleftrightarrow> ?M t" for p t
  proof -
    have "(\<exists>w \<in> set W. lit_prefix True w (p, t) \<noteq> None) \<longleftrightarrow> ?M t"
    proof (intro bex_cong refl)
      fix w assume "w \<in> set W"
      then have "map lower w = w" using W by blast
      then show "lit_prefix True w (p, t) \<noteq> None \<longleftrightarrow> (\<exists>u t2. t = u @ t2 \<and> map lower u = w)"
        by (rule lit_prefix_ci_iff)
    qed
    then show ?thesis unfolding char .
  qed
  have iff: "re_search True r x \<longleftrightarrow> (\<exists>a t. x = a @ t \<and> ?M t)" for x
    by (rule re_search_iff) (rule char')
  from found have "\<exists>a t. join_items s = a @ t \<and> ?M t" by (simp only: iff)
  then obtain a t where at: "join_items s = a @ t" and "?M t" by blast
  then obtain w u t2 where w: "w \<in> set W" and t: "t = u @ t2" and u: "map lower u = w" by blast
  have j: "join_items s = a @ u @ t2" using at t by simp
  from W w have wp1: "w \<noteq> []" and wp2: "CHR '','' \<notin> set w" and wp3: "\<not> is_space (hd w)"
    by blast+
  have une: "u \<noteq> []" using u wp1 by auto
  have nocomma: "CHR '','' \<notin> set u"
  proof
    assume "CHR '','' \<in> set u"
    then have "lower (CHR '','') \<in> lower ` set u" by (rule imageI)
    then have "lower (CHR '','') \<in> set w" using u by auto
    moreover have "lower (CHR '','') = CHR '',''" using lower_eq_comma [of "CHR '',''"] by simp
    ultimately show False using wp2 by simp
  qed
  have noblank: "hd u \<noteq> CHR '' ''"
  proof
    assume h: "hd u = CHR '' ''"
    have "hd (map lower u) = lower (hd u)" using une by (rule hd_map)
    then have "hd w = lower (CHR '' '')" using u h by simp
    then have "is_space (hd w)" using is_space_blank by (simp add: is_space_lower)
    then show False using wp3 by simp
  qed
  have "sublist u (join_items s)" unfolding j by (rule sublist_appendI)
  then have "sublist u s" using une nocomma noblank by (rule sublist_join_items)
  then obtain a' b' where s: "s = a' @ u @ b'" unfolding sublist_def by blast
  have "?M (u @ b')" using w u by blast
  then have "\<exists>a t. s = a @ t \<and> ?M t" using s by blast
  then show ?thesis by (simp only: iff)
qed

lemma paren_search_iff: "re_search False paren_re s \<longleftrightarrow> subseq ''()'' s"
proof -
  let ?M = "\<lambda>t. \<exists>t1. t = CHR ''('' # t1 \<and> CHR '')'' \<in> set t1"
  have iff: "re_search False paren_re s \<longleftrightarrow> (\<exists>a t. s = a @ t \<and> ?M t)"
    by (rule re_search_iff) (rule paren_starts)
  have "(\<exists>a t. s = a @ t \<and> ?M t) \<longleftrightarrow> subseq ''()'' s"
  proof
    assume "\<exists>a t. s = a @ t \<and> ?M t"
    then obtain a t1 where s: "s = a @ CHR ''('' # t1" and m: "CHR '')'' \<in> set t1" by blast
    from m have "subseq [CHR '')''] t1" by (simp add: subseq_singleton_left)
    then have "subseq (CHR ''('' # [CHR '')'']) (CHR ''('' # t1)" by (rule subseq_Cons2)
    then have "subseq (CHR ''('' # [CHR '')'']) (a @ CHR ''('' # t1)" by (rule list_emb_append2)
    then show "subseq ''()'' s" using s by simp
  next
    assume "subseq ''()'' s"
    then obtain us v vs where s: "s = us @ v # vs" and v: "CHR ''('' = v"
      and r: "subseq [CHR '')''] vs"
      using list_emb_ConsD [of "(=)" "CHR ''(''" "[CHR '')'']" s] by blast
    from r have "CHR '')'' \<in> set vs" by (simp add: subseq_singleton_left)
    then have "s = us @ (CHR ''('' # vs) \<and> ?M (CHR ''('' # vs)" using s v by simp
    then show "\<exists>a t. s = a @ t \<and> ?M t" by blast
  qed
  then show ?thesis using iff by simp
qed

lemma is_space_not_paren: "is_space c \<Longrightarrow> \<not> (c = CHR ''('' \<or> c = CHR '')'')"
  by (auto simp: is_space_def code_def)

lemma filter_join_items:
  "subseq (filter (\<lambda>x. x = CHR ''('' \<or> x = CHR '')'') (join_items s)) s"
proof -
  let ?P = "\<lambda>x. x = CHR ''('' \<or> x = CHR '')''"
  let ?ok = "\<lambda>item::string. length item < 50 \<and> length item > 0"
  let ?pieces = "str_split (CHR '','') s"
  have e1: "filter ?P (join_items s) = concat (map (filter ?P) (filter ?ok (map str_strip ?pieces)))"
    unfolding join_items_def Let_def by (rule filter_join) simp
  have s1: "subseq (concat (map (filter ?P) (filter ?ok (map str_strip ?pieces))))
      (concat (map (filter ?P) (map str_strip ?pieces)))"
    by (rule subseq_concat_filter)
  have "filter ?P (str_strip x) = filter ?P x" for x
    unfolding str_strip_def by (rule filter_strip) (use is_space_not_paren in blast)
  then have e2: "map (filter ?P) (map str_strip ?pieces) = map (filter ?P) ?pieces" by simp
  have "concat (map (filter ?P) ?pieces) = filter ?P (str_join [CHR '',''] ?pieces)"
    by (rule filter_join [symmetric]) simp
  also have "str_join [CHR '',''] ?pieces = s" by (rule join_split)
  finally have e3: "concat (map (filter ?P) ?pieces) = filter ?P s" .
  from s1 have "subseq (filter ?P (join_items s)) (filter ?P s)" by (simp only: e1 e2 e3)
  moreover have "subseq (filter ?P s) s" by (rule subseq_filter_left)
  ultimately show ?thesis by (rule subseq_order.trans)
qed

lemma paren_search_transfer:
  assumes "re_search False paren_re (join_items s)"
  shows "re_search False paren_re s"
proof -
  let ?P = "\<lambda>x. x = CHR ''('' \<or> x = CHR '')''"
  have "subseq ''()'' (join_items s)" using assms by (simp only: paren_search_iff)
  then have "subseq (filter ?P ''()'') (filter ?P (join_items s))" by (rule subseq_filter)
  then have "subseq ''()'' (filter ?P (join_items s))" by simp
  then have "subseq ''()'' s" using filter_join_items by (rule subseq_order.trans)
  then show ?thesis by (simp only: paren_search_iff)
qed

subsection \<open>Joining the items twice\<close>

lemma join_items_idem: "join_items (join_items s) = join_items s"
proof -
  let ?ok = "\<lambda>item::string. length item < 50 \<and> length item > 0"
  let ?items = "filter ?ok (map str_strip (str_split (CHR '','') s))"
  have j: "join_items s = str_join '', '' ?items" by (simp add: join_items_def Let_def)
  show ?thesis
  proof (cases "?items = []")
    case True
    then have "join_items s = []" unfolding j by simp
    moreover have "join_items [] = []" by (simp add: join_items_def str_strip_def strip_with_def)
    ultimately show ?thesis by simp
  next
    case False
    have item: "CHR '','' \<notin> set i \<and> str_strip i = i \<and> ?ok i" if "i \<in> set ?items" for i
    proof -
      from that obtain piece where piece: "piece \<in> set (str_split (CHR '','') s)"
        and i: "i = str_strip piece" and ok: "?ok i" by auto
      have "CHR '','' \<notin> set piece" using piece by (rule split_piece_sep_free)
      moreover have "set i \<subseteq> set piece"
        unfolding i str_strip_def by (rule set_mono_sublist) (rule strip_sublist)
      ultimately have "CHR '','' \<notin> set i" by blast
      moreover have "str_strip i = i" unfolding i str_strip_def by (rule strip_idem)
      ultimately show ?thesis using ok by simp
    qed
    obtain x xs where xs: "?items = x # xs" using False by (cases ?items) auto
    have item2: "CHR '','' \<notin> set i \<and> str_strip i = i \<and> ?ok i" if "i \<in> set (x # xs)" for i
    proof -
      have "i \<in> set ?items" unfolding xs using that .
      then show ?thesis by (rule item)
    qed
    have "str_split (CHR '','') (str_join '', '' (x # xs)) =
        hd (x # xs) # map ((#) (CHR '' '')) (tl (x # xs))"
    proof (rule split_join)
      show "x # xs \<noteq> []" by simp
      show "\<forall>i \<in> set (x # xs). CHR '','' \<notin> set i" using item2 by blast
    qed
    then have sp: "str_split (CHR '','') (join_items s) = x # map ((#) (CHR '' '')) xs"
      unfolding j xs by simp
    have strip_blank: "str_strip (CHR '' '' # i) = str_strip i" for i
      unfolding str_strip_def using is_space_blank by (rule strip_Cons)
    have sx: "str_strip x = x" using item2 [of x] by simp
    have "str_strip (CHR '' '' # i) = i" if "i \<in> set xs" for i
      using item2 [of i] that strip_blank [of i] by simp
    then have "map str_strip (map ((#) (CHR '' '')) xs) = xs" by (simp add: map_idI)
    then have m: "map str_strip (x # map ((#) (CHR '' '')) xs) = x # xs" using sx by simp
    have "\<forall>i \<in> set (x # xs). ?ok i" using item2 by blast
    then have f: "filter ?ok (x # xs) = x # xs" by (rule filter_True)
    have "join_items (join_items s) = str_join '', '' (filter ?ok (map str_strip (str_split (CHR '','') (join_items s))))"
      by (simp only: join_items_def [of "join_items s"] Let_def)
    also have "\<dots> = str_join '', '' (x # xs)" by (simp only: sp m f)
    finally show ?thesis unfolding j xs .
  qed
qed

subsection \<open>When the output file is written\<close>

lemma process_batch_skip:
  "rows_to_process (df st) (i * batch_size) (min (i * batch_size + batch_size) (length (df st))) = []
     \<Longrightarrow> process_batch model batch_size i st = st"
  by (simp add: process_batch_def Let_def)

lemma process_batch_done:
  assumes "rows_to_process (df st) (i * batch_size) (min (i * batch_size + batch_size) (length (df st))) \<noteq> []"
  shows "written (process_batch model batch_size i st) \<noteq> [] \<and>
         last (written (process_batch model batch_size i st)) = df (process_batch model batch_size i st) \<and>
         results_dict (process_batch model batch_size i st) = []"
  using assms by (simp add: process_batch_def Let_def to_csv_def apply_results_def)

lemma process_batch_written_mono:
  assumes "written st \<noteq> []"
  shows "written (process_batch model batch_size i st) \<noteq> []"
proof (cases "rows_to_process (df st) (i * batch_size) (min (i * batch_size + batch_size) (length (df st))) = []")
  case True
  then show ?thesis using assms by (simp add: process_batch_skip)
next
  case False
  then show ?thesis using process_batch_done by blast
qed

lemma fold_written_mono:
  "written st \<noteq> [] \<Longrightarrow> written (fold (process_batch model batch_size) ks st) \<noteq> []"
  by (induction ks arbitrary: st) (simp_all add: process_batch_written_mono)

lemma process_batch_flushed:
  assumes "flushed st"
  shows "flushed (process_batch model batch_size i st)"
proof (cases "rows_to_process (df st) (i * batch_size) (min (i * batch_size + batch_size) (length (df st))) = []")
  case True
  then show ?thesis using assms by (simp add: process_batch_skip)
next
  case False
  then show ?thesis using process_batch_done [OF False] by (simp add: flushed_def)
qed

lemma fold_flushed:
  "flushed st \<Longrightarrow> flushed (fold (process_batch model batch_size) ks st)"
  by (induction ks arbitrary: st) (simp_all add: process_batch_flushed)

lemma fold_nothing_written:
  assumes "written (fold (process_batch model batch_size) ks st) = []"
  shows "fold (process_batch model batch_size) ks st = st \<and>
         (\<forall>k \<in> set ks. rows_to_process (df st) (k * batch_size)
             (min (k * batch_size + batch_size) (length (df st))) = [])"
  using assms
proof (induction ks arbitrary: st)
  case Nil
  then show ?case by simp
next
  case (Cons k ks)
  let ?st' = "process_batch model batch_size k st"
  have w: "written ?st' = []"
  proof (rule ccontr)
    assume "written ?st' \<noteq> []"
    then have "written (fold (process_batch model batch_size) ks ?st') \<noteq> []"
      by (rule fold_written_mono)
    then show False using Cons.prems by simp
  qed
  have none: "rows_to_process (df st) (k * batch_size)
             (min (k * batch_size + batch_size) (length (df st))) = []"
  proof (rule ccontr)
    assume "\<not> ?thesis"
    then have "written ?st' \<noteq> []" using process_batch_done by blast
    then show False using w by simp
  qed
  then have same: "?st' = st" by (rule process_batch_skip)
  have "written (fold (process_batch model batch_size) ks st) = []"
    using Cons.prems same by simp
  then have "fold (process_batch model batch_size) ks st = st \<and>
         (\<forall>k \<in> set ks. rows_to_process (df st) (k * batch_size)
             (min (k * batch_size + batch_size) (length (df st))) = [])"
    by (rule Cons.IH)
  then show ?case using same none by simp
qed

lemma batch_of_row:
  fixes i n batch_size :: nat
  assumes "i < n" "0 < batch_size"
  shows "i div batch_size < (n + batch_size - 1) div batch_size \<and>
         i div batch_size * batch_size \<le> i \<and>
         i < min (i div batch_size * batch_size + batch_size) n"
proof -
  have "i \<le> n - 1" using assms(1) by arith
  then have "i div batch_size \<le> (n - 1) div batch_size" by (rule div_le_mono)
  moreover have "(n - 1 + batch_size) div batch_size = (n - 1) div batch_size + 1"
    using assms(2) div_add_self2 [of batch_size "n - 1"] by simp
  moreover have "n + batch_size - 1 = n - 1 + batch_size" using assms(1) by simp
  ultimately have 1: "i div batch_size < (n + batch_size - 1) div batch_size" by simp
  have 2: "i div batch_size * batch_size \<le> i" by simp
  have "i < i div batch_size * batch_size + batch_size"
    using assms(2) dividend_less_div_times [of batch_size i] by (simp add: ac_simps)
  then have 3: "i < min (i div batch_size * batch_size + batch_size) n" using assms(1) by simp
  show ?thesis using 1 2 3 by blast
qed

lemma unresolved_row_is_written:
  assumes "process_dataset model d c batch_size = Inr st" "i < length d" "unresolved (d ! i)"
  shows "written st \<noteq> []"
proof
  assume w: "written st = []"
  have bs: "0 < batch_size" using assms(1) by (auto simp: process_dataset_def split: if_splits)
  let ?init = "\<lparr>df = d, results_dict = [], calls = c, queried = [], written = []\<rparr>"
  let ?ks = "[0 ..< (length d + batch_size - 1) div batch_size]"
  have st: "st = fold (process_batch model batch_size) ?ks ?init"
    using assms(1) bs by (simp add: process_dataset_def Let_def)
  have "\<forall>k \<in> set ?ks. rows_to_process (df ?init) (k * batch_size)
             (min (k * batch_size + batch_size) (length (df ?init))) = []"
    using fold_nothing_written [of model batch_size ?ks ?init] w st by simp
  moreover have k: "i div batch_size \<in> set ?ks" using batch_of_row [OF assms(2) bs] by simp
  ultimately have none: "rows_to_process d (i div batch_size * batch_size)
      (min (i div batch_size * batch_size + batch_size) (length d)) = []" by simp
  have "i \<in> set (rows_to_process d (i div batch_size * batch_size)
      (min (i div batch_size * batch_size + batch_size) (length d)))"
    using batch_of_row [OF assms(2) bs] assms(3) by (simp add: rows_to_process_def)
  then show False using none by simp
qed

lemma process_dataset_flushed:
  assumes "process_dataset model d c batch_size = Inr st"
  shows "flushed st"
proof -
  have "flushed \<lparr>df = d, results_dict = [], calls = c, queried = [], written = []\<rparr>"
    by (simp add: flushed_def)
  then show ?thesis using assms
    by (auto simp: process_dataset_def Let_def fold_flushed split: if_splits)
qed

lemma all_resolved_untouched:
  assumes "process_dataset model d c batch_size = Inr st" "\<forall>i < length d. \<not> unresolved (d ! i)"
  shows "st = \<lparr>df = d, results_dict = [], calls = c, queried = [], written = []\<rparr>"
proof -
  let ?init = "\<lparr>df = d, results_dict = [], calls = c, queried = [], written = []\<rparr>"
  have skip: "process_batch model batch_size k ?init = ?init" for k
  proof (rule process_batch_skip)
    show "rows_to_process (df ?init) (k * batch_size)
        (min (k * batch_size + batch_size) (length (df ?init))) = []"
      using assms(2) by (simp add: rows_to_process_def filter_empty_conv)
  qed
  have "fold (process_batch model batch_size) ks ?init = ?init" for ks
    by (induction ks) (simp_all add: skip)
  then show ?thesis using assms(1)
    by (auto simp: process_dataset_def Let_def split: if_splits)
qed

section \<open>The Normalizer on the example of the specification\<close>

text \<open>
  C4 (as stated, refuted): the claim is that \<^verbatim>\<open>clean_usecase\<close> maps
  "This medicine is used for treatment of fever, headache (mild)" to "fever, headache".
  It does not: once the connector phrases and the parenthesis are gone, the fourth
  substitution removes the clause that starts with "This" up to and including the next
  comma, and "fever" goes with it.
\<close>

theorem clean_usecase_example_counterexample:
  "clean_usecase ''This medicine is used for treatment of fever, headache (mild)''
     \<noteq> ''fever, headache''"
  by code_simp

text \<open>
  C4 (amended): for the input
  "This medicine is used for treatment of fever, headache (mild)", \<^verbatim>\<open>clean_usecase\<close>
  returns exactly "headache".
\<close>

theorem clean_usecase_example:
  "clean_usecase ''This medicine is used for treatment of fever, headache (mild)''
     = ''headache''"
  by code_simp

section \<open>The length bound of the Validator\<close>

text \<open>
  C6 (as stated, refuted): the claim is that every string of 150 characters or more is
  rejected. The test in the code is \<^verbatim>\<open>len(usecase) > 150\<close>: a string of exactly 150
  characters without a verb is accepted.
\<close>

theorem validate_usecase_length_150_counterexample:
  "length (replicate 150 (CHR ''a'')) \<ge> 150 \<and> validate_usecase (replicate 150 (CHR ''a''))"
  by code_simp

text \<open>
  C6 (amended): for every string whose length is greater than 150 characters,
  \<^verbatim>\<open>validate_usecase\<close> returns false.
\<close>

theorem validate_usecase_too_long:
  "length s > 150 \<Longrightarrow> validate_usecase s = False"
  by (simp add: validate_usecase_def)

theorem validate_usecase_too_long_witness:
  "length (replicate 151 (CHR ''a'')) > 150 \<and> validate_usecase (replicate 151 (CHR ''a'')) = False"
  using validate_usecase_too_long [of "replicate 151 (CHR ''a'')"] by simp

section \<open>Runs of the examples\<close>

lemma limited_run:
  "process_dataset limited_model [dolo, azee, dolo] 0 50 =
     Inr \<lparr>df = [dolo, azee, dolo\<lparr>Usecase := Some ''fever, headache''\<rparr>], results_dict = [],
          calls = 4, queried = [0, 2],
          written = [[dolo, azee, dolo], [dolo, azee, dolo\<lparr>Usecase := Some ''fever, headache''\<rparr>]]\<rparr>"
  by code_simp

lemma limited_query:
  "get_medicine_usecase limited_model dolo 0 = (Inl ''429 Resource has been exhausted'', 3, [1, 2])"
  by code_simp

lemma prose_query: "get_medicine_usecase prose_model dolo 0 = (Inr ''it may c'', 1, [])"
  by code_simp

lemma prose_facts: "\<not> validate_usecase ''it may c''" "clean_usecase ''it may c'' = []" "unresolved dolo"
  by code_simp+

lemma validate_empty: "validate_usecase []"
  by code_simp

section \<open>The checkpoint invariant of the Batch Orchestrator\<close>

text \<open>
  C1 (as stated, refuted): the claim is that after \<^verbatim>\<open>process_dataset\<close> the number of rows
  written to the output equals the number of rows read. A batch in which no row is
  unresolved is skipped before anything is saved (lines 146 and 147), so on a frame in
  which every row is resolved two rows are read here and nothing is written.
\<close>

theorem process_dataset_checkpoint_invariant_counterexample:
  "length [azee, azee] = 2 \<and> \<not> unresolved azee \<and>
   process_dataset limited_model [azee, azee] 0 50 =
     Inr \<lparr>df = [azee, azee], results_dict = [], calls = 0, queried = [], written = []\<rparr>"
  by code_simp

text \<open>
  C1 (amended): when \<^verbatim>\<open>process_dataset\<close> has finished, the frame it returns and every
  frame it wrote to the output file have as many rows as were read. When some row read was
  unresolved, the output file was written and the last frame written is the frame
  returned; when no row read was unresolved, nothing is written and the frame is returned
  as it was read. Every row of the returned frame and of the written frames is either the
  row as it was read or that row with a stored usecase that \<^verbatim>\<open>validate_usecase\<close> accepts or
  that is "unknown": the raw response of the model is never stored.
\<close>

theorem process_dataset_checkpoint_invariant:
  assumes "process_dataset model input calls0 batch_size = Inr st"
  shows "length (df st) = length input \<and>
         (\<forall>w \<in> set (written st). length w = length input) \<and>
         ((\<exists>i < length input. unresolved (input ! i)) \<longrightarrow>
            written st \<noteq> [] \<and> last (written st) = df st) \<and>
         ((\<forall>i < length input. \<not> unresolved (input ! i)) \<longrightarrow>
            written st = [] \<and> df st = input) \<and>
         (\<forall>f \<in> set (df st # written st). \<forall>i < length input.
            f ! i = input ! i \<or>
            (\<exists>v. f ! i = (input ! i)\<lparr>Usecase := Some v\<rparr> \<and>
                 (validate_usecase v \<or> v = ''unknown'')))"
proof -
  have inv: "run_inv input st" using assms by (rule process_dataset_inv)
  have a: "list_all2 row_ok input (df st)" using inv by (simp add: run_inv_def)
  have b: "list_all2 row_ok input w" if "w \<in> set (written st)" for w
    using inv that by (simp add: run_inv_def list_all_iff)
  have c: "list_all2 row_ok input f" if "f \<in> set (df st # written st)" for f
    using a b that by auto
  have 1: "length (df st) = length input" using a by (auto dest: list_all2_lengthD)
  have 2: "\<forall>w \<in> set (written st). length w = length input"
    using b by (metis list_all2_lengthD)
  have 3: "(\<exists>i < length input. unresolved (input ! i)) \<longrightarrow>
            written st \<noteq> [] \<and> last (written st) = df st"
  proof
    assume "\<exists>i < length input. unresolved (input ! i)"
    then obtain i where "i < length input" "unresolved (input ! i)" by blast
    with assms have w: "written st \<noteq> []" by (rule unresolved_row_is_written)
    moreover have "flushed st" using assms by (rule process_dataset_flushed)
    ultimately show "written st \<noteq> [] \<and> last (written st) = df st" by (simp add: flushed_def)
  qed
  have 4: "(\<forall>i < length input. \<not> unresolved (input ! i)) \<longrightarrow> written st = [] \<and> df st = input"
  proof
    assume "\<forall>i < length input. \<not> unresolved (input ! i)"
    with assms have "st = \<lparr>df = input, results_dict = [], calls = calls0, queried = [], written = []\<rparr>"
      by (rule all_resolved_untouched)
    then show "written st = [] \<and> df st = input" by simp
  qed
  have 5: "\<forall>f \<in> set (df st # written st). \<forall>i < length input.
            f ! i = input ! i \<or>
            (\<exists>v. f ! i = (input ! i)\<lparr>Usecase := Some v\<rparr> \<and>
                 (validate_usecase v \<or> v = ''unknown''))"
  proof (intro ballI allI impI)
    fix f i assume "f \<in> set (df st # written st)" "i < length input"
    then have "row_ok (input ! i) (f ! i)" using c by (simp add: list_all2_conv_all_nth)
    then show "f ! i = input ! i \<or>
            (\<exists>v. f ! i = (input ! i)\<lparr>Usecase := Some v\<rparr> \<and>
                 (validate_usecase v \<or> v = ''unknown''))"
      by (rule row_ok_cases)
  qed
  show ?thesis using 1 2 3 4 5 by blast
qed

theorem process_dataset_checkpoint_invariant_witness:
  "process_dataset limited_model [dolo, azee, dolo] 0 50 =
     Inr \<lparr>df = [dolo, azee, dolo\<lparr>Usecase := Some ''fever, headache''\<rparr>], results_dict = [],
          calls = 4, queried = [0, 2],
          written = [[dolo, azee, dolo], [dolo, azee, dolo\<lparr>Usecase := Some ''fever, headache''\<rparr>]]\<rparr> \<and>
   unresolved ([dolo, azee, dolo] ! 0) \<and>
   last (written \<lparr>df = [dolo, azee, dolo\<lparr>Usecase := Some ''fever, headache''\<rparr>], results_dict = [],
          calls = 4, queried = [0, 2],
          written = [[dolo, azee, dolo], [dolo, azee, dolo\<lparr>Usecase := Some ''fever, headache''\<rparr>]]\<rparr>)
     = [dolo, azee, dolo\<lparr>Usecase := Some ''fever, headache''\<rparr>]"
proof -
  have u: "unresolved ([dolo, azee, dolo] ! 0)" by (simp add: unresolved_def dolo_def)
  show ?thesis
    using process_dataset_checkpoint_invariant [OF limited_run] limited_run u by simp
qed

section \<open>A rate limit that outlasts the retries\<close>

text \<open>
  C2 (as stated, refuted): the claim is that a rate-limit error that has used up the three
  tries of \<^verbatim>\<open>get_medicine_usecase\<close> escapes the loop over the rows and halts the run. On the
  frame below the query for row 0 raises after three tries, and the run goes on: it then
  queries row 2, stores its usecase, and returns.
\<close>

theorem rate_limit_halts_run_counterexample:
  "get_medicine_usecase limited_model ([dolo, azee, dolo] ! 0) 0 =
     (Inl ''429 Resource has been exhausted'', 3, [1, 2]) \<and>
   process_dataset limited_model [dolo, azee, dolo] 0 50 =
     Inr \<lparr>df = [dolo, azee, dolo\<lparr>Usecase := Some ''fever, headache''\<rparr>], results_dict = [],
          calls = 4, queried = [0, 2],
          written = [[dolo, azee, dolo], [dolo, azee, dolo\<lparr>Usecase := Some ''fever, headache''\<rparr>]]\<rparr>"
  using limited_run limited_query by simp

text \<open>
  C2 (amended): when a rate-limit error has used up the three tries of
  \<^verbatim>\<open>get_medicine_usecase\<close> and reaches the loop over the rows, the handler of the loop
  catches it: the results gathered so far are applied to the frame, the frame is written
  to the output file, the dictionary of results is emptied, and the loop goes on with the
  next row. What \<^verbatim>\<open>get_medicine_usecase\<close> raises is always a rate-limit error, and for a
  positive batch size \<^verbatim>\<open>process_dataset\<close> always returns.
\<close>

theorem rate_limit_is_caught_by_row_loop:
  assumes "get_medicine_usecase model (df st ! idx) (calls st) = (Inl e, c, w)"
  shows "is_rate_limit_error e \<and> c = calls st + 3 \<and>
         process_row model st idx =
           (to_csv (apply_results (st\<lparr>calls := c, queried := queried st @ [idx]\<rparr>)))
             \<lparr>results_dict := []\<rparr> \<and>
         (0 < batch_size \<longrightarrow> (\<exists>st'. process_dataset model input calls0 batch_size = Inr st'))"
proof -
  have rl: "is_rate_limit_error e \<and> c = calls st + 3"
    using get_medicine_usecase_Inl [OF assms] by simp
  have "process_row model st idx =
           (to_csv (apply_results (st\<lparr>calls := c, queried := queried st @ [idx]\<rparr>)))
             \<lparr>results_dict := []\<rparr>"
    using rl by (simp add: process_row_def assms Let_def to_csv_def apply_results_def)
  moreover have "0 < batch_size \<longrightarrow> (\<exists>st'. process_dataset model input calls0 batch_size = Inr st')"
    by (simp add: process_dataset_def Let_def)
  ultimately show ?thesis using rl by blast
qed

theorem rate_limit_is_caught_by_row_loop_witness:
  "get_medicine_usecase limited_model
      (df \<lparr>df = [dolo], results_dict = [], calls = 0, queried = [], written = []\<rparr> ! 0) 0 =
     (Inl ''429 Resource has been exhausted'', 3, [1, 2]) \<and>
   process_row limited_model \<lparr>df = [dolo], results_dict = [], calls = 0, queried = [], written = []\<rparr> 0 =
     \<lparr>df = [dolo], results_dict = [], calls = 3, queried = [0], written = [[dolo]]\<rparr>"
proof -
  let ?st = "\<lparr>df = [dolo], results_dict = [], calls = 0, queried = [], written = []\<rparr>"
  have g: "get_medicine_usecase limited_model (df ?st ! 0) (calls ?st) =
     (Inl ''429 Resource has been exhausted'', 3, [1, 2])"
    using limited_query by simp
  show ?thesis
    using rate_limit_is_caught_by_row_loop [OF g, of 1 "[dolo]" 0] g
    by (simp add: to_csv_def apply_results_def)
qed

section \<open>The retry policy of the Enrichment Query\<close>

text \<open>
  C3: \<^verbatim>\<open>get_medicine_usecase\<close> retries rate-limit errors only (a message that contains
  "429", or "quota" or "resource exhausted" in any letter case). It makes at most three
  calls; the waits before the retries are drawn from 1 and 2 seconds, the first values of
  the exponential schedule; every call before the last one raised a rate-limit error; when
  the last call raises a rate-limit error it was the third and the error is raised to the
  caller; when the last call raises any other error the result is "unknown".
\<close>

theorem get_medicine_usecase_retry_policy:
  assumes "get_medicine_usecase model row n = (res, n', waits)"
  shows "(is_rate_limit_error msg \<longleftrightarrow>
            sublist ''429'' msg \<or> sublist ''quota'' (str_lower msg) \<or>
            sublist ''resource exhausted'' (str_lower msg)) \<and>
         n < n' \<and> n' \<le> n + 3 \<and>
         waits = map (\<lambda>k. 2 ^ k) [0 ..< n' - n - 1] \<and>
         (\<forall>k. n \<le> k \<and> Suc k < n' \<longrightarrow> (\<exists>e. model k row = Raises e \<and> is_rate_limit_error e)) \<and>
         (\<forall>e. model (n' - 1) row = Raises e \<longrightarrow>
            (if is_rate_limit_error e then res = Inl e \<and> n' = n + 3 else res = Inr ''unknown'')) \<and>
         (\<forall>e. res = Inl e \<longrightarrow> n' = n + 3 \<and> model (n' - 1) row = Raises e \<and> is_rate_limit_error e)"
proof -
  have 0: "is_rate_limit_error msg \<longleftrightarrow>
            sublist ''429'' msg \<or> sublist ''quota'' (str_lower msg) \<or>
            sublist ''resource exhausted'' (str_lower msg)"
    by (simp add: is_rate_limit_error_def)
  have raises: "query_once (Raises e) = (if is_rate_limit_error e then Inl e else Inr ''unknown'')" for e
    by (simp add: query_once_def)
  consider
      (one) v where "query_once (model n row) = Inr v" "res = Inr v" "n' = Suc n" "waits = []"
    | (two) e1 v where "query_once (model n row) = Inl e1"
        "query_once (model (Suc n) row) = Inr v" "res = Inr v" "n' = Suc (Suc n)" "waits = [1]"
    | (three) e1 e2 where "query_once (model n row) = Inl e1"
        "query_once (model (Suc n) row) = Inl e2"
        "res = query_once (model (Suc (Suc n)) row)" "n' = Suc (Suc (Suc n))" "waits = [1, 2]"
    using assms unfolding get_medicine_usecase_unfold by (auto split: sum.splits)
  then show ?thesis
  proof cases
    case one
    then show ?thesis using 0 by (auto simp: raises split: if_splits)
  next
    case two
    have k: "k = n" if "n \<le> k" "Suc k < n'" for k using that two by simp
    from two show ?thesis using 0 query_once_Inl [OF two(1)]
      by (auto simp: raises dest!: k split: if_splits)
  next
    case three
    have k: "k = n \<or> k = Suc n" if "n \<le> k" "Suc k < n'" for k using that three by auto
    have up: "[0..<2] = [0, Suc 0]" by (simp add: upt_rec)
    from three show ?thesis
      using 0 query_once_Inl [OF three(1)] query_once_Inl [OF three(2)]
      by (auto simp: raises up dest!: k query_once_Inl split: if_splits)
  qed
qed

theorem get_medicine_usecase_retry_policy_witness:
  "get_medicine_usecase limited_model dolo 0 = (Inl ''429 Resource has been exhausted'', 3, [1, 2]) \<and>
   is_rate_limit_error ''429 Resource has been exhausted'' \<and>
   get_medicine_usecase broken_model dolo 0 = (Inr ''unknown'', 1, []) \<and>
   \<not> is_rate_limit_error ''500 Internal error''"
proof -
  have b: "get_medicine_usecase broken_model dolo 0 = (Inr ''unknown'', 1, [])" by code_simp
  have r: "\<not> is_rate_limit_error ''500 Internal error''" by code_simp
  show ?thesis
    using get_medicine_usecase_retry_policy [OF limited_query, of "''x''"]
      get_medicine_usecase_retry_policy [OF b, of "''x''"] limited_query b r
    by (simp add: limited_model_def)
qed

section \<open>The lookup by composition\<close>

text \<open>
  C5 (the code departs from the claim): the claim is that, for a name that contains no key,
  a composition whose first word is a key up to letter case gives that key's value. The
  code lowers the first word and looks it up among the keys as they are written, all of
  which begin with a capital letter. For "Dolo 650 Tablet" with the composition
  "Paracetamol (650mg)" the name contains no key, the first word of the composition is the
  key "Paracetamol", and the result is still \<^term>\<open>None\<close>.
\<close>

theorem lookup_by_composition_misses:
  "lookup_name COMMON_MEDICINE_USECASES (name dolo) = None \<and>
   short_composition1 dolo = Some ''Paracetamol (650mg)'' \<and>
   str_split_ws ''Paracetamol (650mg)'' = [''Paracetamol'', ''(650mg)''] \<and>
   map_of COMMON_MEDICINE_USECASES ''Paracetamol'' = Some ''fever, pain, headache'' \<and>
   get_usecase_from_lookup (name dolo) [short_composition1 dolo, short_composition2 dolo] = None"
  by code_simp

section \<open>The resolved rows on a second run\<close>

text \<open>
  C8: a row whose Usecase is neither missing, nor the empty string, nor "unknown" is not
  among the rows to process of any batch, the lookup pass leaves it as it is, and after
  \<^verbatim>\<open>process_dataset\<close> or \<^verbatim>\<open>process_dataset_with_fallback\<close> it was never queried and is
  unchanged in the returned frame and in every frame written to the output file.
\<close>

theorem resolved_rows_are_skipped:
  assumes "i < length input" "Usecase (input ! i) = Some v" "v \<noteq> []" "v \<noteq> ''unknown''"
  shows "i \<notin> set (rows_to_process input start_idx end_idx) \<and>
         lookup_row (input ! i) = input ! i \<and>
         (process_dataset model input calls0 batch_size = Inr st \<longrightarrow>
            i \<notin> set (queried st) \<and> df st ! i = input ! i \<and>
            (\<forall>w \<in> set (written st). w ! i = input ! i)) \<and>
         (process_dataset_with_fallback model input calls0 batch_size = Inr st \<longrightarrow>
            i \<notin> set (queried st) \<and> df st ! i = input ! i \<and>
            (\<forall>w \<in> set (written st). w ! i = input ! i))"
proof -
  have res: "\<not> unresolved (input ! i)" using assms(2-4) by (simp add: unresolved_def)
  have 1: "i \<notin> set (rows_to_process input start_idx end_idx)"
    using res by (simp add: rows_to_process_def)
  have 2: "lookup_row (input ! i) = input ! i" using res by (simp add: lookup_row_def)
  have 3: "i \<notin> set (queried st) \<and> df st ! i = input ! i \<and>
            (\<forall>w \<in> set (written st). w ! i = input ! i)"
    if "process_dataset model input calls0 batch_size = Inr st"
    using that assms(1) res by (rule process_dataset_resolved)
  have 4: "i \<notin> set (queried st) \<and> df st ! i = input ! i \<and>
            (\<forall>w \<in> set (written st). w ! i = input ! i)"
    if h: "process_dataset_with_fallback model input calls0 batch_size = Inr st"
  proof -
    let ?d = "map lookup_row input"
    obtain st' where p: "process_dataset model ?d calls0 batch_size = Inr st'"
      and st: "st = st'\<lparr>written := ?d # written st'\<rparr>"
      using h by (auto simp: process_dataset_with_fallback_def Let_def split: sum.splits)
    have di: "?d ! i = input ! i" using assms(1) 2 by simp
    have "i \<notin> set (queried st') \<and> df st' ! i = ?d ! i \<and> (\<forall>w \<in> set (written st'). w ! i = ?d ! i)"
      using p assms(1) res di by (intro process_dataset_resolved) simp_all
    then show ?thesis using st di by simp
  qed
  show ?thesis using 1 2 3 4 by blast
qed

theorem resolved_rows_are_skipped_witness:
  "1 < length [dolo, azee, dolo] \<and> Usecase ([dolo, azee, dolo] ! 1) = Some ''bacterial infections'' \<and>
   process_dataset limited_model [dolo, azee, dolo] 0 50 =
     Inr \<lparr>df = [dolo, azee, dolo\<lparr>Usecase := Some ''fever, headache''\<rparr>], results_dict = [],
          calls = 4, queried = [0, 2],
          written = [[dolo, azee, dolo], [dolo, azee, dolo\<lparr>Usecase := Some ''fever, headache''\<rparr>]]\<rparr> \<and>
   lookup_row azee = azee"
proof -
  have a: "1 < length [dolo, azee, dolo]" by simp
  have b: "Usecase ([dolo, azee, dolo] ! 1) = Some ''bacterial infections''"
    by (simp add: azee_def)
  have c: "''bacterial infections'' \<noteq> []" "''bacterial infections'' \<noteq> ''unknown''" by simp_all
  note d = limited_run
  show ?thesis
    using resolved_rows_are_skipped [OF a b c, of 0 3 limited_model 0 50] a b d by simp
qed

section \<open>The empty string\<close>

text \<open>
  C10: \<^verbatim>\<open>validate_usecase\<close> accepts the empty string. When the usecase returned for a row
  fails the validation and cleaning it again gives the empty string, the value stored for
  the row is the empty string and not "unknown"; on a frame of one unresolved row, that
  is what the run returns and writes.
\<close>

theorem empty_usecase_is_accepted_and_stored:
  assumes "unresolved row"
    and "get_medicine_usecase model row calls0 = (Inr u, c, w)"
    and "\<not> validate_usecase u" and "clean_usecase u = []"
    and "0 < batch_size"
  shows "validate_usecase [] \<and> checked u = [] \<and>
         process_dataset model [row] calls0 batch_size =
           Inr \<lparr>df = [row\<lparr>Usecase := Some []\<rparr>], results_dict = [], calls = c, queried = [0],
                written = [[row\<lparr>Usecase := Some []\<rparr>]]\<rparr>"
proof -
  have ch: "checked u = []" using assms(3,4) validate_empty by (simp add: checked_def Let_def)
  have bc: "(length [row] + batch_size - 1) div batch_size = 1"
    using assms(5) by simp
  have mn: "min batch_size (Suc 0) = Suc 0" using assms(5) by simp
  have "process_dataset model [row] calls0 batch_size =
           Inr \<lparr>df = [row\<lparr>Usecase := Some []\<rparr>], results_dict = [], calls = c, queried = [0],
                written = [[row\<lparr>Usecase := Some []\<rparr>]]\<rparr>"
    using assms(1,5)
    by (simp add: process_dataset_def bc mn Let_def process_batch_def rows_to_process_def
        process_row_def assms(2) ch apply_results_def set_usecase_def to_csv_def)
  then show ?thesis using ch validate_empty by simp
qed

theorem empty_usecase_is_accepted_and_stored_witness:
  "unresolved dolo \<and> get_medicine_usecase prose_model dolo 0 = (Inr ''it may c'', 1, []) \<and>
   \<not> validate_usecase ''it may c'' \<and> clean_usecase ''it may c'' = [] \<and>
   process_dataset prose_model [dolo] 0 50 =
     Inr \<lparr>df = [dolo\<lparr>Usecase := Some []\<rparr>], results_dict = [], calls = 1, queried = [0],
          written = [[dolo\<lparr>Usecase := Some []\<rparr>]]\<rparr>"
proof -
  have p: "(0::nat) < 50" by simp
  show ?thesis
    using empty_usecase_is_accepted_and_stored [OF prose_facts(3) prose_query prose_facts(1,2) p]
      prose_facts prose_query by simp
qed

section \<open>The verbs that the Validator rejects\<close>

lemma verbs_are_words:
  "list_all (\<lambda>w. w \<noteq> [] \<and> list_all is_word w) (modal_verbs @ action_verbs)"
  by code_simp

lemma validate_example: "validate_usecase ''fever, headache, joint pain''"
  by code_simp

text \<open>
  C9: a string \<open>s\<close> that contains one of the modal or action verbs \<open>w\<close> as a whole word
  in any letter case (\<open>s\<close> is \<open>pre\<close>, then a spelling \<open>u\<close> of \<open>w\<close>, then \<open>post\<close>, where
  \<open>pre\<close> does not end and \<open>post\<close> does not begin with a word character) is rejected by
  \<^verbatim>\<open>validate_usecase\<close>; and "fever, headache, joint pain" is accepted.
\<close>

theorem validate_usecase_rejects_verbs:
  assumes "w \<in> set modal_verbs \<union> set action_verbs"
    and "s = pre @ u @ post" and "str_lower u = w"
    and "pre = [] \<or> \<not> is_word (last pre)" and "post = [] \<or> \<not> is_word (hd post)"
  shows "validate_usecase s = False \<and> validate_usecase ''fever, headache, joint pain''"
proof -
  have "w \<in> set (modal_verbs @ action_verbs)" using assms(1) by simp
  then have "w \<noteq> [] \<and> list_all is_word w"
    using verbs_are_words unfolding list_all_iff by blast
  then have w: "w \<noteq> []" "\<forall>c \<in> set w. is_word c" by (simp_all add: list_all_iff)
  have u: "map lower u = w" using assms(3) by (simp add: str_lower_def)
  have une: "u \<noteq> []" using u w(1) by auto
  have found: "re_search True (word_re ws) s" if "w \<in> set ws" for ws
    unfolding assms(2) by (rule re_search_word [OF that u une w(2) assms(4,5)])
  have "re_search True (word_re modal_verbs) s \<or> re_search True (word_re action_verbs) s"
    using assms(1) found by blast
  then have "list_ex (\<lambda>pattern. re_search True pattern s) sentence_patterns"
    by (simp add: sentence_patterns_def)
  then have "validate_usecase s = False" by (simp add: validate_usecase_def)
  then show ?thesis using validate_example by simp
qed

theorem validate_usecase_rejects_verbs_witness:
  "''does'' \<in> set modal_verbs \<union> set action_verbs \<and> str_lower ''DOES'' = ''does'' \<and>
   \<not> is_word (last ''It '') \<and> \<not> is_word (hd '' work'') \<and>
   validate_usecase (''It '' @ ''DOES'' @ '' work'') = False"
proof -
  have a: "''does'' \<in> set modal_verbs \<union> set action_verbs" by (simp add: modal_verbs_def)
  have b: "str_lower ''DOES'' = ''does''" by code_simp
  have c: "\<not> is_word (last ''It '')" by code_simp
  have d: "\<not> is_word (hd '' work'')" by code_simp
  have c': "''It '' = [] \<or> \<not> is_word (last ''It '')" using c by (rule disjI2)
  have d': "'' work'' = [] \<or> \<not> is_word (hd '' work'')" using d by (rule disjI2)
  have "validate_usecase (''It '' @ ''DOES'' @ '' work'') = False"
    using validate_usecase_rejects_verbs [OF a refl b c' d'] by (rule conjunct1)
  then show ?thesis using a b c d by blast
qed

section \<open>Cleaning twice\<close>

lemma removal_words:
  "list_all (\<lambda>w. map lower w = w \<and> w \<noteq> [] \<and> CHR '','' \<notin> set w \<and> \<not> is_space (hd w))
     [''used in'', ''used for'', ''used to'', ''treatment of'', ''indicated for'',
      ''helps with'', ''treats'', ''such as'', ''including'', ''like'', ''e.g.'', ''i.e.'',
      ''it '', ''this '']"
  by code_simp

text \<open>
  Each of the other removals can also leave text that the next cleaning removes: "used in"
  (which is not among the phrases the claim lists) and a clause that starts with "it ".
\<close>

lemma other_removals_matter:
  "clean_usecase ''tused inreats'' = ''treats'' \<and> clean_usecase ''treats'' = [] \<and>
   clean_usecase ''iit b,t c'' = ''it c'' \<and> clean_usecase ''it c'' = []"
  by code_simp

text \<open>
  C7 (as stated, refuted): the claim is that \<^verbatim>\<open>clean_usecase\<close> is idempotent on every
  string without a connector phrase ("used for", "treatment of", "indicated for",
  "helps with", "treats") and without a parenthesis. The string "liklikee" has neither;
  the second substitution removes the marker "like" from it and leaves "like", which the
  next cleaning removes as well.
\<close>

theorem clean_usecase_idempotent_counterexample:
  "\<not> sublist ''used for'' (str_lower ''liklikee'') \<and>
   \<not> sublist ''treatment of'' (str_lower ''liklikee'') \<and>
   \<not> sublist ''indicated for'' (str_lower ''liklikee'') \<and>
   \<not> sublist ''helps with'' (str_lower ''liklikee'') \<and>
   \<not> sublist ''treats'' (str_lower ''liklikee'') \<and>
   CHR ''('' \<notin> set ''liklikee'' \<and> CHR '')'' \<notin> set ''liklikee'' \<and>
   clean_usecase ''liklikee'' = ''like'' \<and>
   clean_usecase (clean_usecase ''liklikee'') = [] \<and>
   clean_usecase (clean_usecase ''liklikee'') \<noteq> clean_usecase ''liklikee''"
  by code_simp

text \<open>
  C7 (amended): \<^verbatim>\<open>clean_usecase\<close> is idempotent on input in which it finds nothing to
  remove: for every string \<open>s\<close> in which none of its four patterns has a match (no
  connector phrase, "used in" and "used to" included; no explanatory marker "such as",
  "including", "like", "e.g.", "i.e."; no text in parentheses; no clause that starts with
  "it " or "this "), \<^verbatim>\<open>clean_usecase(clean_usecase(s))\<close> equals \<^verbatim>\<open>clean_usecase(s)\<close>.
\<close>

theorem clean_usecase_idempotent:
  assumes "\<not> re_search True connector_re s" and "\<not> re_search True marker_re s"
    and "\<not> re_search False paren_re s" and "\<not> re_search True clause_re s"
  shows "clean_usecase (clean_usecase s) = clean_usecase s"
proof -
  have clean: "clean_usecase x = join_items x"
    if "\<not> re_search True connector_re x" "\<not> re_search True marker_re x"
      "\<not> re_search False paren_re x" "\<not> re_search True clause_re x" for x
    using that by (simp add: clean_usecase_def Let_def re_sub_no_match)
  have words: "\<forall>w \<in> set W. map lower w = w \<and> w \<noteq> [] \<and> CHR '','' \<notin> set w \<and> \<not> is_space (hd w)"
    if "set W \<subseteq> set [''used in'', ''used for'', ''used to'', ''treatment of'', ''indicated for'',
      ''helps with'', ''treats'', ''such as'', ''including'', ''like'', ''e.g.'', ''i.e.'',
      ''it '', ''this '']" for W
    using removal_words that unfolding list_all_iff by blast
  have 1: "\<not> re_search True connector_re (join_items s)"
    using word_search_transfer [OF connector_starts words, of s] assms(1) by auto
  have 2: "\<not> re_search True marker_re (join_items s)"
    using word_search_transfer [OF marker_starts words, of s] assms(2) by auto
  have 3: "\<not> re_search False paren_re (join_items s)"
    using paren_search_transfer assms(3) by blast
  have 4: "\<not> re_search True clause_re (join_items s)"
    using word_search_transfer [OF clause_starts words, of s] assms(4) by auto
  have "clean_usecase (clean_usecase s) = clean_usecase (join_items s)"
    using clean [OF assms] by simp
  also have "\<dots> = join_items (join_items s)" using 1 2 3 4 by (rule clean)
  also have "\<dots> = join_items s" by (rule join_items_idem)
  also have "\<dots> = clean_usecase s" using clean [OF assms] by simp
  finally show ?thesis .
qed

theorem clean_usecase_idempotent_witness:
  "\<not> re_search True connector_re '' fever,, Joint  pain ,cough '' \<and>
   \<not> re_search True marker_re '' fever,, Joint  pain ,cough '' \<and>
   \<not> re_search False paren_re '' fever,, Joint  pain ,cough '' \<and>
   \<not> re_search True clause_re '' fever,, Joint  pain ,cough '' \<and>
   clean_usecase '' fever,, Joint  pain ,cough '' = ''fever, Joint  pain, cough'' \<and>
   clean_usecase (clean_usecase '' fever,, Joint  pain ,cough '') =
     clean_usecase '' fever,, Joint  pain ,cough ''"
proof -
  have a: "\<not> re_search True connector_re '' fever,, Joint  pain ,cough ''" by code_simp
  have b: "\<not> re_search True marker_re '' fever,, Joint  pain ,cough ''" by code_simp
  have c: "\<not> re_search False paren_re '' fever,, Joint  pain ,cough ''" by code_simp
  have d: "\<not> re_search True clause_re '' fever,, Joint  pain ,cough ''" by code_simp
  have e: "clean_usecase '' fever,, Joint  pain ,cough '' = ''fever, Joint  pain, cough''"
    by code_simp
  show ?thesis using clean_usecase_idempotent [OF a b c d] a b c d e by blast
qed

end
